theory Spec2Isabelle
  imports Complex_Main
begin

section \<open>TaskWeaver: task store, scheduler, executor, idle trigger, decomposer\<close>

text \<open>
  A shallow embedding of \<^verbatim>\<open>TaskManager.ts\<close>, \<^verbatim>\<open>IdleDetector.ts\<close> and
  \<^verbatim>\<open>TaskDecomposer.ts\<close>.

  Conventions of the embedding:
  \<^item> a \<^verbatim>\<open>Date\<close> is its \<^verbatim>\<open>getTime()\<close> value, an \<open>int\<close> of milliseconds; every
    \<^verbatim>\<open>new Date()\<close> / \<^verbatim>\<open>Date.now()\<close> of the source is a parameter \<open>now\<close>;
  \<^item> a JavaScript \<^verbatim>\<open>number\<close> holding a duration in seconds is an exact rational
    (\<open>rat\<close>); the numbers of the manager's configuration (\<^verbatim>\<open>maxConcurrent\<close>,
    \<^verbatim>\<open>timeoutSeconds\<close>, \<^verbatim>\<open>maxRetries\<close>) are integers, negative ones included, since
    the constructor keeps them; \<^verbatim>\<open>NaN\<close> and the infinities are not modelled;
  \<^item> an optional field (\<^verbatim>\<open>x?: T\<close>) is an \<open>option\<close>, \<^verbatim>\<open>undefined\<close> being \<open>None\<close>;
  \<^item> the \<^verbatim>\<open>Map<string, Task>\<close> is an association list in insertion order (a JavaScript
    \<^verbatim>\<open>Map\<close> iterates in insertion order and \<^verbatim>\<open>set\<close> on a present key keeps its place);
    the \<^verbatim>\<open>Set<string>\<close> of running ids is a list without repetition, in insertion order;
  \<^item> a task held by the map is an object: it has an identity (a reference, the number of
    its allocation) besides its fields. \<^verbatim>\<open>addTask\<close> allocates a new object; an execution
    keeps the reference it read at its start and writes through that reference, so after the
    id was removed or added again it writes to an object the map no longer holds;
  \<^item> the task's \<^verbatim>\<open>execute\<close> closure is opaque: the record keeps a handle for it, and what
    an invocation does (resolve with a result, reject, or outlive the timeout) is supplied by
    the environment when the awaited promise settles.
\<close>

subsection \<open>Data model (TaskManager.ts, lines 6-47)\<close>

datatype TaskPriority = Critical | High | Medium | Low | Periodic

datatype TaskStatus = Pending | Running | Completed | Failed

datatype action = Action nat

record TaskResult =
  success :: bool
  output_text :: "string option"
  error :: "string option"
  metrics :: "(string \<times> string) list option"

record Task =
  task_id :: string
  name :: string
  description :: "string option"
  priority :: TaskPriority
  status :: TaskStatus
  execute :: action
  createdAt :: int
  lastRunAt :: "int option"
  intervalSeconds :: "rat option"
  tags :: "string list option"
  dependsOn :: "string list option"

record TaskManagerConfig =
  maxConcurrent :: int
  timeoutSeconds :: int
  maxRetries :: int

text \<open>
  A task object: its reference and its fields. \<open>next_ref\<close> is the reference the next
  allocated object gets.
\<close>

type_synonym obj = "nat \<times> Task"

definition ref_of :: "string \<times> obj \<Rightarrow> nat" where
  "ref_of kv = fst (snd kv)"

record TaskManager =
  tasks :: "(string \<times> obj) list"
  next_ref :: nat
  config :: TaskManagerConfig
  runningTasks :: "string list"

subsection \<open>The JavaScript containers\<close>

text \<open>\<^verbatim>\<open>Map.get\<close>: the value stored under the key, or \<^verbatim>\<open>undefined\<close>.\<close>

definition map_get :: "(string \<times> 'v) list \<Rightarrow> string \<Rightarrow> 'v option" where
  "map_get m k = map_of m k"

text \<open>\<^verbatim>\<open>Map.set\<close>: replaces the value in place when the key is present, appends otherwise.\<close>

fun map_set :: "string \<Rightarrow> 'v \<Rightarrow> (string \<times> 'v) list \<Rightarrow> (string \<times> 'v) list" where
  "map_set k v [] = [(k, v)]"
| "map_set k v ((k', v') # m) = (if k' = k then (k, v) # m else (k', v') # map_set k v m)"

text \<open>\<^verbatim>\<open>Map.delete\<close>: the map without the key, and whether the key was present.\<close>

definition map_delete :: "string \<Rightarrow> (string \<times> 'v) list \<Rightarrow> (string \<times> 'v) list" where
  "map_delete k m = filter (\<lambda>kv. fst kv \<noteq> k) m"

definition map_has :: "(string \<times> 'v) list \<Rightarrow> string \<Rightarrow> bool" where
  "map_has m k = (map_get m k \<noteq> None)"

text \<open>\<^verbatim>\<open>Map.values()\<close>, in insertion order.\<close>

definition map_values :: "(string \<times> 'v) list \<Rightarrow> 'v list" where
  "map_values m = map snd m"

text \<open>
  A mutation through an object reference obtained by \<^verbatim>\<open>this.tasks.get(id)\<close>
  (\<^verbatim>\<open>task.status = ...\<close>): the fields of the object with that reference change, wherever
  the map holds it. When the map does not hold the object any more, the map is unchanged.
\<close>

definition obj_write :: "nat \<Rightarrow> (Task \<Rightarrow> Task) \<Rightarrow> (string \<times> obj) list \<Rightarrow> (string \<times> obj) list" where
  "obj_write r f m = map (\<lambda>(k, (r', task)). if r' = r then (k, (r', f task)) else (k, (r', task))) m"

text \<open>\<^verbatim>\<open>Set.add\<close> and \<^verbatim>\<open>Set.delete\<close>; \<^verbatim>\<open>Set.size\<close> is the length of the list.\<close>

definition set_add :: "string \<Rightarrow> string list \<Rightarrow> string list" where
  "set_add x s = (if x \<in> set s then s else s @ [x])"

definition set_delete :: "string \<Rightarrow> string list \<Rightarrow> string list" where
  "set_delete x s = filter (\<lambda>y. y \<noteq> x) s"

subsection \<open>TaskManager: constructor and store operations (lines 57-88)\<close>

text \<open>
  \<^verbatim>\<open>config.x || d\<close> on an optional number: the default replaces \<^verbatim>\<open>undefined\<close> and 0; a
  negative number is truthy and is kept.
\<close>

definition or_default :: "int option \<Rightarrow> int \<Rightarrow> int" where
  "or_default x d = (case x of None \<Rightarrow> d | Some v \<Rightarrow> if v = 0 then d else v)"

definition TaskManager_new :: "int option \<Rightarrow> int option \<Rightarrow> int option \<Rightarrow> TaskManager" where
  "TaskManager_new mc ts mr =
     \<lparr> tasks = [],
       next_ref = 0,
       config = \<lparr> maxConcurrent = or_default mc 4,
                  timeoutSeconds = or_default ts 300,
                  maxRetries = or_default mr 2 \<rparr>,
       runningTasks = [] \<rparr>"

text \<open>
  \<^verbatim>\<open>addTask\<close> stores a copy of the task, a new object, under its id. For a value of the declared type
  \<^verbatim>\<open>Task\<close> both \<^verbatim>\<open>createdAt\<close> (a \<^verbatim>\<open>Date\<close>) and \<^verbatim>\<open>status\<close> (a non-empty string) are
  truthy, so \<^verbatim>\<open>task.createdAt || new Date()\<close> and \<^verbatim>\<open>task.status || 'pending'\<close> keep them.
\<close>

definition addTask :: "Task \<Rightarrow> TaskManager \<Rightarrow> TaskManager" where
  "addTask task m =
     m\<lparr> tasks := map_set (task_id task) (next_ref m, task) (tasks m),
        next_ref := Suc (next_ref m) \<rparr>"

definition removeTask :: "string \<Rightarrow> TaskManager \<Rightarrow> bool \<times> TaskManager" where
  "removeTask taskId m = (map_has (tasks m) taskId, m\<lparr> tasks := map_delete taskId (tasks m) \<rparr>)"

text \<open>\<^verbatim>\<open>getTask\<close>, read as the fields of the object it returns.\<close>

definition getTask :: "TaskManager \<Rightarrow> string \<Rightarrow> Task option" where
  "getTask m taskId = map_option snd (map_get (tasks m) taskId)"

text \<open>\<^verbatim>\<open>Array.from(this.tasks.values())\<close>: the stored tasks in insertion order.\<close>

definition all_tasks :: "TaskManager \<Rightarrow> Task list" where
  "all_tasks m = map snd (map_values (tasks m))"

text \<open>
  \<^verbatim>\<open>clearCompleted\<close> (lines 252-261): deletes the completed tasks that are not periodic
  and returns their number.
\<close>

definition clearCompleted :: "TaskManager \<Rightarrow> nat \<times> TaskManager" where
  "clearCompleted m =
     (length (filter (\<lambda>(k, (r, task)). status task = Completed \<and> priority task \<noteq> Periodic) (tasks m)),
      m\<lparr> tasks := filter (\<lambda>(k, (r, task)). \<not> (status task = Completed \<and> priority task \<noteq> Periodic))
                        (tasks m) \<rparr>)"

subsection \<open>Scheduler: getPendingTasks (lines 93-128)\<close>

definition priorityOrder :: "TaskPriority \<Rightarrow> nat" where
  "priorityOrder p = (case p of Critical \<Rightarrow> 0 | High \<Rightarrow> 1 | Medium \<Rightarrow> 2 | Low \<Rightarrow> 3 | Periodic \<Rightarrow> 4)"

text \<open>
  The dependency loop (lines 109-114): \<^verbatim>\<open>false\<close> at the first dependency id that is missing
  from the map or whose task is not completed.
\<close>

fun deps_satisfied :: "(string \<times> obj) list \<Rightarrow> string list \<Rightarrow> bool" where
  "deps_satisfied m [] = True"
| "deps_satisfied m (depId # rest) =
     (case map_get m depId of
        None \<Rightarrow> False
      | Some (_, dep) \<Rightarrow> if status dep \<noteq> Completed then False else deps_satisfied m rest)"

text \<open>
  The periodic check (lines 118-123). \<^verbatim>\<open>task.intervalSeconds && task.lastRunAt\<close> is falsy
  for a missing or zero interval and for a missing \<^verbatim>\<open>lastRunAt\<close>.
\<close>

definition periodic_not_due :: "Task \<Rightarrow> int \<Rightarrow> bool" where
  "periodic_not_due task now =
     (case (intervalSeconds task, lastRunAt task) of
        (Some iv, Some lr) \<Rightarrow>
          priority task = Periodic \<and> iv \<noteq> 0 \<and> (of_int (now - lr) / 1000 < iv)
      | _ \<Rightarrow> False)"

text \<open>The filter callback of lines 103-126.\<close>

definition pending_filter :: "(string \<times> obj) list \<Rightarrow> int \<Rightarrow> Task \<Rightarrow> bool" where
  "pending_filter m now task =
     (if status task \<noteq> Pending then False
      else if (case dependsOn task of None \<Rightarrow> False | Some ds \<Rightarrow> \<not> deps_satisfied m ds) then False
      else if periodic_not_due task now then False
      else True)"

text \<open>
  \<^verbatim>\<open>Array.prototype.sort\<close> is a stable sort; with the comparator
  \<^verbatim>\<open>priorityOrder[a.priority] - priorityOrder[b.priority]\<close> it is the stable sort by rank.
\<close>

definition getPendingTasks :: "TaskManager \<Rightarrow> int \<Rightarrow> Task list" where
  "getPendingTasks m now =
     sort_key (\<lambda>t. priorityOrder (priority t))
       (filter (pending_filter (tasks m) now) (all_tasks m))"

subsection \<open>Executor: executeTask and executeNext (lines 133-213)\<close>

text \<open>
  \<^verbatim>\<open>executeWithTimeout\<close> (lines 197-213) invokes \<^verbatim>\<open>task.execute()\<close> once and returns a
  promise that settles in one of three ways: the action resolves with a result, the action
  rejects (the caller's \<^verbatim>\<open>catch\<close> keeps the message of the error, line 179), or the timer
  fires first and rejects with the timeout error.
\<close>

datatype attempt = Resolves TaskResult | Rejects string | TimesOut

text \<open>
  The decimal rendering of an integer, as a template literal prints it (below \<open>10\<^sup>2\<^sup>1\<close>;
  from there on JavaScript prints an exponent).
\<close>

fun show_nat :: "nat \<Rightarrow> string" where
  "show_nat n = (if n < 10 then [''0123456789'' ! n] else show_nat (n div 10) @ [''0123456789'' ! (n mod 10)])"

declare show_nat.simps [simp del]

definition show_int :: "int \<Rightarrow> string" where
  "show_int i = (if i < 0 then ''-'' @ show_nat (nat (- i)) else show_nat (nat i))"

definition timeout_message :: "TaskManagerConfig \<Rightarrow> string" where
  "timeout_message cfg = ''Task timeout after '' @ show_int (timeoutSeconds cfg) @ ''s''"

text \<open>
  \<^verbatim>\<open>executeTask\<close> is an \<^verbatim>\<open>async\<close> function: it runs synchronously up to the
  \<^verbatim>\<open>await\<close> of line 164 and is resumed when the awaited promise settles. A call is therefore
  either finished (\<open>Returned\<close>, with the value of the promise it returned) or suspended at the
  \<^verbatim>\<open>await\<close> with the action invoked and its locals kept (\<open>Awaiting\<close>): \<^verbatim>\<open>taskId\<close>,
  the reference \<^verbatim>\<open>task\<close> read at line 152, \<^verbatim>\<open>retries\<close> and \<^verbatim>\<open>lastError\<close>.
\<close>

record frame =
  taskId :: string
  task_ref :: nat
  retries :: nat
  lastError :: "string option"

datatype call_state = Returned "TaskResult option" | Awaiting frame

text \<open>
  The head of the \<^verbatim>\<open>while\<close> loop (line 162) and what follows the loop (lines 184-191):
  either the action is invoked once more and the call suspends, or the retries are used up
  (at once, when \<^verbatim>\<open>maxRetries\<close> is negative), the task is marked failed and the failure
  result is returned.
\<close>

definition while_head :: "TaskManager \<Rightarrow> frame \<Rightarrow> call_state \<times> TaskManager" where
  "while_head m fr =
     (if int (retries fr) \<le> maxRetries (config m) then (Awaiting fr, m)
      else (Returned (Some \<lparr> success = False, output_text = None, error = lastError fr, metrics = None \<rparr>),
            m\<lparr> tasks := obj_write (task_ref fr) (\<lambda>task. task\<lparr> status := Failed \<rparr>) (tasks m),
               runningTasks := set_delete (taskId fr) (runningTasks m) \<rparr>))"

text \<open>Lines 151-162: the synchronous start of \<^verbatim>\<open>executeTask\<close>.\<close>

definition executeTask_begin :: "TaskManager \<Rightarrow> string \<Rightarrow> call_state \<times> TaskManager" where
  "executeTask_begin m tid =
     (case map_get (tasks m) tid of
        None \<Rightarrow> (Returned None, m)
      | Some (r, _) \<Rightarrow>
          while_head
            (m\<lparr> tasks := obj_write r (\<lambda>task. task\<lparr> status := Running \<rparr>) (tasks m),
               runningTasks := set_add tid (runningTasks m) \<rparr>)
            \<lparr> taskId = tid, task_ref = r, retries = 0, lastError = None \<rparr>)"

text \<open>Lines 166-174: the assignments to the task after an attempt resolved, at time \<open>now\<close>.\<close>

definition record_result :: "TaskResult \<Rightarrow> int \<Rightarrow> Task \<Rightarrow> Task" where
  "record_result result now task =
     (let t1 = task\<lparr> status := (if success result then Completed else Failed) \<rparr>;
          t2 = t1\<lparr> lastRunAt := Some now \<rparr>
      in if success result then (if priority t2 = Periodic then t2\<lparr> status := Pending \<rparr> else t2)
         else t2)"

text \<open>
  Lines 164-181: the call resumes when the awaited promise settles, at time \<open>now\<close>. A resolved
  attempt ends the call; a rejected or timed-out one is caught, counted, and the loop goes on.
\<close>

definition executeTask_settle :: "TaskManager \<Rightarrow> frame \<Rightarrow> attempt \<Rightarrow> int \<Rightarrow> call_state \<times> TaskManager" where
  "executeTask_settle m fr a now =
     (case a of
        Resolves result \<Rightarrow>
          (Returned (Some result),
           m\<lparr> tasks := obj_write (task_ref fr) (record_result result now) (tasks m),
              runningTasks := set_delete (taskId fr) (runningTasks m) \<rparr>)
      | Rejects msg \<Rightarrow>
          while_head m (fr\<lparr> lastError := Some msg, retries := Suc (retries fr) \<rparr>)
      | TimesOut \<Rightarrow>
          while_head m (fr\<lparr> lastError := Some (timeout_message (config m)), retries := Suc (retries fr) \<rparr>))"

text \<open>
  One execution run to its end with nothing interleaved: \<open>env k\<close> is how the attempt made
  with \<^verbatim>\<open>retries = k\<close> settles, and when.
\<close>

type_synonym env = "nat \<Rightarrow> attempt \<times> int"

function executeTask_run :: "env \<Rightarrow> TaskManager \<Rightarrow> frame \<Rightarrow> TaskResult option \<times> TaskManager" where
  "executeTask_run e m fr =
     (case executeTask_settle m fr (fst (e (retries fr))) (snd (e (retries fr))) of
        (Returned r, m') \<Rightarrow> (r, m')
      | (Awaiting fr', m') \<Rightarrow> executeTask_run e m' fr')"
  by pat_completeness auto
termination
  apply (relation "measure (\<lambda>(e, m, fr). nat (maxRetries (config m) + 1 - int (retries fr)))")
   apply simp
  apply (auto simp: executeTask_settle_def while_head_def split: attempt.splits if_splits)
  done

declare executeTask_run.simps [simp del]

definition executeTask :: "env \<Rightarrow> TaskManager \<Rightarrow> string \<Rightarrow> TaskResult option \<times> TaskManager" where
  "executeTask e m tid =
     (case executeTask_begin m tid of
        (Returned r, m') \<Rightarrow> (r, m')
      | (Awaiting fr, m') \<Rightarrow> executeTask_run e m' fr)"

text \<open>
  \<^verbatim>\<open>executeNext\<close> (lines 133-146) has no \<^verbatim>\<open>await\<close> of its own: it returns the promise of
  \<^verbatim>\<open>executeTask\<close>, so its synchronous part ends where that of \<^verbatim>\<open>executeTask\<close> ends.
\<close>

definition executeNext_begin :: "TaskManager \<Rightarrow> int \<Rightarrow> call_state \<times> TaskManager" where
  "executeNext_begin m now =
     (if int (length (runningTasks m)) \<ge> maxConcurrent (config m) then (Returned None, m)
      else (case getPendingTasks m now of
              [] \<Rightarrow> (Returned None, m)
            | task # _ \<Rightarrow> executeTask_begin m (task_id task)))"

definition executeNext :: "env \<Rightarrow> TaskManager \<Rightarrow> int \<Rightarrow> TaskResult option \<times> TaskManager" where
  "executeNext e m now =
     (case executeNext_begin m now of
        (Returned r, m') \<Rightarrow> (r, m')
      | (Awaiting fr, m') \<Rightarrow> executeTask_run e m' fr)"

text \<open>\<^verbatim>\<open>getRunningCount\<close> (line 218).\<close>

definition getRunningCount :: "TaskManager \<Rightarrow> nat" where
  "getRunningCount m = length (runningTasks m)"

subsection \<open>Overlapping executions\<close>

text \<open>
  Calls of \<^verbatim>\<open>executeTask\<close> and \<^verbatim>\<open>executeNext\<close> may overlap: while one call is suspended
  at its \<^verbatim>\<open>await\<close>, the event loop runs other calls and resumes suspended ones in any order.
  A system is the manager together with the suspended calls; an event is a call of one of
  the manager's methods that change it (\<^verbatim>\<open>executeTask\<close>, \<^verbatim>\<open>executeNext\<close>,
  \<^verbatim>\<open>addTask\<close>, \<^verbatim>\<open>removeTask\<close>, \<^verbatim>\<open>clearCompleted\<close>), or the settling of the promise
  the \<open>i\<close>-th suspended call awaits. The task objects are written by the manager only.
\<close>

record system =
  manager :: TaskManager
  inflight :: "frame list"

datatype event =
    CallExecuteTask string
  | CallExecuteNext int
  | Settle nat attempt int
  | CallAddTask Task
  | CallRemoveTask string
  | CallClearCompleted

definition spawn :: "system \<Rightarrow> call_state \<times> TaskManager \<Rightarrow> system" where
  "spawn s r =
     (case r of
        (Returned _, m') \<Rightarrow> s\<lparr> manager := m' \<rparr>
      | (Awaiting fr, m') \<Rightarrow> s\<lparr> manager := m', inflight := inflight s @ [fr] \<rparr>)"

fun step :: "system \<Rightarrow> event \<Rightarrow> system" where
  "step s (CallExecuteTask tid) = spawn s (executeTask_begin (manager s) tid)"
| "step s (CallExecuteNext now) = spawn s (executeNext_begin (manager s) now)"
| "step s (Settle i a now) =
     (if i < length (inflight s) then
        (case executeTask_settle (manager s) (inflight s ! i) a now of
           (Returned _, m') \<Rightarrow>
             s\<lparr> manager := m', inflight := take i (inflight s) @ drop (Suc i) (inflight s) \<rparr>
         | (Awaiting fr', m') \<Rightarrow>
             s\<lparr> manager := m', inflight := (inflight s)[i := fr'] \<rparr>)
      else s)"
| "step s (CallAddTask task) = s\<lparr> manager := addTask task (manager s) \<rparr>"
| "step s (CallRemoveTask tid) = s\<lparr> manager := snd (removeTask tid (manager s)) \<rparr>"
| "step s CallClearCompleted = s\<lparr> manager := snd (clearCompleted (manager s)) \<rparr>"

definition run_events :: "system \<Rightarrow> event list \<Rightarrow> system" where
  "run_events s evs = foldl step s evs"

text \<open>The number of executions of a task id that are in flight at once.\<close>

definition executions_of :: "system \<Rightarrow> string \<Rightarrow> nat" where
  "executions_of s tid = length (filter (\<lambda>fr. taskId fr = tid) (inflight s))"

subsection \<open>IdleDetector: shouldTrigger and markTriggered (IdleDetector.ts)\<close>

text \<open>The argument of \<^verbatim>\<open>shouldTrigger\<close> is a \<^verbatim>\<open>Partial<IdleState>\<close>: every field may be absent.\<close>

record IdleState =
  systemIdleSeconds :: "rat option"
  userSilentSeconds :: "rat option"
  hasActiveTasks :: "bool option"
  lastActivityTime :: "int option"

record IdleDetectorConfig =
  idleThresholdSeconds :: rat
  userSilentThresholdSeconds :: rat
  cooldownSeconds :: rat

record IdleDetector =
  idle_config :: IdleDetectorConfig
  lastTriggerTime :: "int option"

definition or_default_rat :: "rat option \<Rightarrow> rat \<Rightarrow> rat" where
  "or_default_rat x d = (case x of None \<Rightarrow> d | Some v \<Rightarrow> if v = 0 then d else v)"

definition IdleDetector_new :: "rat option \<Rightarrow> rat option \<Rightarrow> rat option \<Rightarrow> IdleDetector" where
  "IdleDetector_new it us cd =
     \<lparr> idle_config = \<lparr> idleThresholdSeconds = or_default_rat it 600,
                       userSilentThresholdSeconds = or_default_rat us 600,
                       cooldownSeconds = or_default_rat cd 1800 \<rparr>,
       lastTriggerTime = None \<rparr>"

text \<open>
  \<^verbatim>\<open>shouldTrigger\<close> (lines 349-378 of the file part). \<open>probe\<close> is what
  \<^verbatim>\<open>getSystemIdleSeconds()\<close> would return; it is read only when the state carries no
  \<^verbatim>\<open>systemIdleSeconds\<close>. An absent \<^verbatim>\<open>hasActiveTasks\<close> is falsy.
\<close>

definition shouldTrigger :: "IdleDetector \<Rightarrow> rat \<Rightarrow> IdleState \<Rightarrow> int \<Rightarrow> bool" where
  "shouldTrigger d probe state now =
     (if (case lastTriggerTime d of
            None \<Rightarrow> False
          | Some lt \<Rightarrow> of_int (now - lt) / 1000 < cooldownSeconds (idle_config d)) then False
      else
        let systemIdle = (case systemIdleSeconds state of Some v \<Rightarrow> v | None \<Rightarrow> probe) in
        if systemIdle < idleThresholdSeconds (idle_config d) then False
        else if (case userSilentSeconds state of
                   None \<Rightarrow> False
                 | Some u \<Rightarrow> u < userSilentThresholdSeconds (idle_config d)) then False
        else if hasActiveTasks state = Some True then False
        else True)"

definition markTriggered :: "IdleDetector \<Rightarrow> int \<Rightarrow> IdleDetector" where
  "markTriggered d now = d\<lparr> lastTriggerTime := Some now \<rparr>"

subsection \<open>TaskDecomposer: decompose (TaskDecomposer.ts, lines 8-69)\<close>

record DecompositionStrategy =
  strategy_name :: string
  matches :: "string \<Rightarrow> bool"
  strategy_decompose :: "Task \<Rightarrow> Task list"

text \<open>
  The decomposer is its list of strategies in registration order. The constructor registers
  three strategies of its own (lines 74-206); they are list entries like any other, and
  nothing below depends on which strategies the list holds.
\<close>

record TaskDecomposer =
  strategies :: "DecompositionStrategy list"

definition registerStrategy :: "DecompositionStrategy \<Rightarrow> TaskDecomposer \<Rightarrow> TaskDecomposer" where
  "registerStrategy s d = d\<lparr> strategies := strategies d @ [s] \<rparr>"

text \<open>\<^verbatim>\<open>task.description || task.name\<close>: an absent or empty description falls back to the name.\<close>

definition description_or_name :: "Task \<Rightarrow> string" where
  "description_or_name task =
     (case description task of None \<Rightarrow> name task | Some d \<Rightarrow> if d = [] then name task else d)"

text \<open>Lines 48-53: a subtask without \<^verbatim>\<open>dependsOn\<close> gets the empty list.\<close>

definition set_default_deps :: "Task \<Rightarrow> Task" where
  "set_default_deps subtask = (if dependsOn subtask = None then subtask\<lparr> dependsOn := Some [] \<rparr> else subtask)"

text \<open>The loop of lines 43-57 over the strategies in registration order, and line 60 after it.\<close>

fun decompose_loop :: "DecompositionStrategy list \<Rightarrow> string \<Rightarrow> Task \<Rightarrow> Task list" where
  "decompose_loop [] desc task = [task]"
| "decompose_loop (strategy # rest) desc task =
     (if matches strategy desc then map set_default_deps (strategy_decompose strategy task)
      else decompose_loop rest desc task)"

definition decompose :: "TaskDecomposer \<Rightarrow> Task \<Rightarrow> Task list" where
  "decompose d task = decompose_loop (strategies d) (description_or_name task) task"

definition canDecompose :: "TaskDecomposer \<Rightarrow> Task \<Rightarrow> bool" where
  "canDecompose d task = list_ex (\<lambda>s. matches s (description_or_name task)) (strategies d)"

text \<open>\<^verbatim>\<open>String.prototype.includes\<close>, as the strategies' \<^verbatim>\<open>matches\<close> predicates use it.\<close>

fun includes_str :: "string \<Rightarrow> string \<Rightarrow> bool" where
  "includes_str [] k = (k = [])"
| "includes_str (c # cs) k = (take (length k) (c # cs) = k \<or> includes_str cs k)"

subsection \<open>Notions used to state the properties\<close>

text \<open>An attempt fails when its promise is rejected: by the action, or by the timer.\<close>

definition is_failure :: "attempt \<Rightarrow> bool" where
  "is_failure a = (case a of Resolves _ \<Rightarrow> False | Rejects _ \<Rightarrow> True | TimesOut \<Rightarrow> True)"

text \<open>The message the \<^verbatim>\<open>catch\<close> of line 179 keeps for a failed attempt.\<close>

definition failure_message :: "TaskManagerConfig \<Rightarrow> attempt \<Rightarrow> string option" where
  "failure_message cfg a =
     (case a of Resolves _ \<Rightarrow> None | Rejects msg \<Rightarrow> Some msg | TimesOut \<Rightarrow> Some (timeout_message cfg))"

text \<open>
  The store as \<^verbatim>\<open>addTask\<close> builds it: a key occurs once, an object is held once, every
  task is stored under its own id, and every reference was allocated.
\<close>

definition store_ok :: "TaskManager \<Rightarrow> bool" where
  "store_ok m =
     (distinct (map fst (tasks m))
      \<and> distinct (map ref_of (tasks m))
      \<and> list_all (\<lambda>(k, (r, task)). task_id task = k \<and> r < next_ref m) (tasks m))"

text \<open>A pending task without dependencies, as the examples of the README add them.\<close>

definition simple_task :: "string \<Rightarrow> TaskPriority \<Rightarrow> Task" where
  "simple_task i p =
     \<lparr> task_id = i, name = i, description = None, priority = p, status = Pending,
       execute = Action 0, createdAt = 0, lastRunAt = None, intervalSeconds = None,
       tags = None, dependsOn = None \<rparr>"

text \<open>
  The event lists in which every execution is started by \<^verbatim>\<open>executeNext\<close> and no task is
  added under an id while an execution of that id is in flight. Removing tasks is not
  restricted.
\<close>

fun allowed :: "system \<Rightarrow> event \<Rightarrow> bool" where
  "allowed s (CallExecuteTask tid) = False"
| "allowed s (CallAddTask task) = (task_id task \<notin> set (map taskId (inflight s)))"
| "allowed s (CallExecuteNext now) = True"
| "allowed s (Settle i a now) = True"
| "allowed s (CallRemoveTask tid) = True"
| "allowed s CallClearCompleted = True"

fun allowed_run :: "system \<Rightarrow> event list \<Rightarrow> bool" where
  "allowed_run s [] = True"
| "allowed_run s (ev # evs) = (allowed s ev \<and> allowed_run (step s ev) evs)"

text \<open>
  What holds of a system along such an event list: the store is as \<^verbatim>\<open>addTask\<close> builds
  it, the executions in flight are of different task ids, and for each of them the task
  stored under its id, if there is one, has status running and the object the execution
  holds is stored, if at all, under its id.
\<close>

definition frame_ok :: "TaskManager \<Rightarrow> frame \<Rightarrow> bool" where
  "frame_ok m fr =
     (task_ref fr < next_ref m
      \<and> list_all (\<lambda>(k, (r, task)).
                    (k = taskId fr \<longrightarrow> status task = Running)
                    \<and> (r = task_ref fr \<longrightarrow> k = taskId fr)) (tasks m))"

definition exec_inv :: "system \<Rightarrow> bool" where
  "exec_inv s =
     (store_ok (manager s)
      \<and> distinct (map taskId (inflight s))
      \<and> list_all (frame_ok (manager s)) (inflight s))"

text \<open>Results and environments for the examples.\<close>

definition ok_result :: TaskResult where
  "ok_result = \<lparr> success = True, output_text = None, error = None, metrics = None \<rparr>"

definition failure_result :: "string \<Rightarrow> TaskResult" where
  "failure_result msg = \<lparr> success = False, output_text = None, error = Some msg, metrics = None \<rparr>"

definition every_attempt :: "attempt \<Rightarrow> int \<Rightarrow> env" where
  "every_attempt a t = (\<lambda>k. (a, t))"


text \<open>
  A manager holding one periodic task with an interval of one hour, and the same manager
  after a run of the task that succeeded at time 1000.
\<close>

definition hourly_task :: Task where
  "hourly_task = (simple_task ''p'' Periodic)\<lparr> intervalSeconds := Some 3600 \<rparr>"

definition hourly_manager :: TaskManager where
  "hourly_manager = addTask hourly_task (TaskManager_new None None None)"

definition hourly_after_run :: TaskManager where
  "hourly_after_run =
     hourly_manager\<lparr> tasks := [(''p'', (0, hourly_task\<lparr> status := Pending, lastRunAt := Some 1000 \<rparr>))] \<rparr>"

text \<open>
  A manager with room for one execution that holds the tasks \<open>a\<close> (being executed) and \<open>b\<close>
  (completed), and the system in which the execution of \<open>a\<close> is in flight. \<open>waiting_manager\<close>
  and \<open>waiting_system\<close> are the same with \<open>b\<close> pending.
\<close>

definition busy_manager :: TaskManager where
  "busy_manager =
     (addTask ((simple_task ''b'' High)\<lparr> status := Completed \<rparr>)
        (addTask ((simple_task ''a'' High)\<lparr> status := Running \<rparr>)
           (TaskManager_new (Some 1) None None)))\<lparr> runningTasks := [''a''] \<rparr>"

definition busy_system :: system where
  "busy_system = \<lparr> manager = busy_manager,
                    inflight = [\<lparr> taskId = ''a'', task_ref = 0, retries = 0, lastError = None \<rparr>] \<rparr>"

definition waiting_manager :: TaskManager where
  "waiting_manager =
     (addTask (simple_task ''b'' High)
        (addTask ((simple_task ''a'' High)\<lparr> status := Running \<rparr>)
           (TaskManager_new (Some 1) None None)))\<lparr> runningTasks := [''a''] \<rparr>"

definition waiting_system :: system where
  "waiting_system = \<lparr> manager = waiting_manager,
                       inflight = [\<lparr> taskId = ''a'', task_ref = 0, retries = 0, lastError = None \<rparr>] \<rparr>"

text \<open>
  A manager with the default configuration that holds the single pending task \<open>a\<close>, and
  one constructed with \<^verbatim>\<open>maxRetries: -1\<close>.
\<close>

definition single_manager :: TaskManager where
  "single_manager = addTask (simple_task ''a'' High) (TaskManager_new None None None)"

definition no_attempt_manager :: TaskManager where
  "no_attempt_manager = addTask (simple_task ''a'' High) (TaskManager_new None None (Some (- 1)))"

text \<open>
  A detector configured as in the README (idle threshold 600 s, cooldown 1800 s), an idle
  state with 700 idle seconds and no active task, and a decomposer with one registered
  strategy that matches descriptions containing \<open>batch\<close>.
\<close>

definition readme_detector :: IdleDetector where
  "readme_detector = IdleDetector_new (Some 600) None (Some 1800)"

definition idle_700 :: IdleState where
  "idle_700 = \<lparr> systemIdleSeconds = Some 700, userSilentSeconds = None,
                hasActiveTasks = Some False, lastActivityTime = None \<rparr>"

definition batch_strategy :: DecompositionStrategy where
  "batch_strategy =
     \<lparr> strategy_name = ''batch'',
       matches = (\<lambda>desc. includes_str desc ''batch''),
       strategy_decompose = (\<lambda>task. [task\<lparr> task_id := task_id task @ ''-1'' \<rparr>,
                                        task\<lparr> task_id := task_id task @ ''-2'' \<rparr>]) \<rparr>"

text \<open>The system in which the manager \<open>single_manager\<close> has no execution in flight.\<close>

definition single_system :: system where
  "single_system = \<lparr> manager = single_manager, inflight = [] \<rparr>"

section \<open>Properties\<close>

subsection \<open>Facts about the containers\<close>

lemma obj_write_Nil: "obj_write r f [] = []"
  by (simp add: obj_write_def)

lemma obj_write_Cons:
  "obj_write r f ((k, (r', task)) # m)
     = (if r' = r then (k, (r', f task)) else (k, (r', task))) # obj_write r f m"
  by (simp add: obj_write_def)

lemma map_get_obj_write:
  "map_get (obj_write r f m) k
     = map_option (\<lambda>(r', task). if r' = r then (r', f task) else (r', task)) (map_get m k)"
  by (induction m) (auto simp: map_get_def obj_write_Nil obj_write_Cons)

lemma obj_write_obj_write:
  "obj_write r g (obj_write r f m) = obj_write r (\<lambda>v. g (f v)) m"
  by (induction m) (auto simp: obj_write_Nil obj_write_Cons)

lemma in_set_obj_write:
  "(k, (i, task)) \<in> set (obj_write r f m)
     \<longleftrightarrow> (\<exists>t0. (k, (i, t0)) \<in> set m \<and> task = (if i = r then f t0 else t0))"
proof (induction m)
  case Nil
  then show ?case by (simp add: obj_write_Nil)
next
  case (Cons kv m)
  obtain k0 i0 t0 where kv: "kv = (k0, (i0, t0))" by (cases kv) auto
  show ?case
    unfolding kv obj_write_Cons using Cons.IH by (cases "i0 = r") auto
qed

lemma map_fst_obj_write: "map fst (obj_write r f m) = map fst m"
  by (induction m) (auto simp: obj_write_Nil obj_write_Cons)

lemma map_ref_obj_write: "map ref_of (obj_write r f m) = map ref_of m"
  by (induction m) (auto simp: obj_write_Nil obj_write_Cons ref_of_def)

lemma getTask_in_all_tasks: "getTask m k = Some task \<Longrightarrow> task \<in> set (all_tasks m)"
proof -
  assume "getTask m k = Some task"
  then obtain r where "map_of (tasks m) k = Some (r, task)"
    by (auto simp: getTask_def map_get_def)
  then have "(k, (r, task)) \<in> set (tasks m)" by (rule map_of_SomeD)
  then have "snd (snd (k, (r, task))) \<in> (\<lambda>kv. snd (snd kv)) ` set (tasks m)" by (rule imageI)
  then show ?thesis by (simp add: all_tasks_def map_values_def)
qed

lemma set_delete_set_add: "set_delete x (set_add x s) = set_delete x s"
  by (simp add: set_delete_def set_add_def)

text \<open>
  The representation is kept: the constructor, \<^verbatim>\<open>addTask\<close>, \<^verbatim>\<open>removeTask\<close> and
  \<^verbatim>\<open>clearCompleted\<close> keep the store keyed by task id without repeated keys or objects, and the
  running-set stays without repetition.
\<close>

lemma map_fst_map_set:
  "map fst (map_set k v m) = (if k \<in> set (map fst m) then map fst m else map fst m @ [k])"
  by (induction m) (auto simp del: set_map)

lemma distinct_map_set: "distinct (map fst m) \<Longrightarrow> distinct (map fst (map_set k v m))"
  by (simp add: map_fst_map_set del: set_map)

lemma set_map_set: "set (map_set k v m) \<subseteq> insert (k, v) (set m)"
  by (induction m) (auto split: if_splits)

lemma map_ref_map_set:
  "\<exists>xs ys. map ref_of m = xs @ ys
     \<and> (map ref_of (map_set key (n, t) m) = xs @ [n] @ ys
        \<or> (\<exists>r. ys = r # tl ys \<and> map ref_of (map_set key (n, t) m) = xs @ [n] @ tl ys))"
proof (induction m)
  case Nil
  then show ?case by (simp add: ref_of_def)
next
  case (Cons kv m)
  obtain k r task where kv: "kv = (k, (r, task))" by (cases kv) auto
  show ?case
  proof (cases "k = key")
    case True
    have "map ref_of (kv # m) = [] @ (r # map ref_of m)"
      and "map ref_of (map_set key (n, t) (kv # m)) = [] @ [n] @ tl (r # map ref_of m)"
      using True by (simp_all add: kv ref_of_def)
    then show ?thesis by (metis list.sel(3))
  next
    case False
    from Cons.IH obtain xs ys where xy: "map ref_of m = xs @ ys"
      and alt: "map ref_of (map_set key (n, t) m) = xs @ [n] @ ys
        \<or> (\<exists>r. ys = r # tl ys \<and> map ref_of (map_set key (n, t) m) = xs @ [n] @ tl ys)"
      by blast
    have a: "map ref_of (kv # m) = (r # xs) @ ys"
      using xy by (simp add: kv ref_of_def)
    have b: "map ref_of (map_set key (n, t) (kv # m)) = r # map ref_of (map_set key (n, t) m)"
      using False by (simp add: kv ref_of_def)
    from alt show ?thesis
    proof
      assume "map ref_of (map_set key (n, t) m) = xs @ [n] @ ys"
      with a b show ?thesis by (intro exI[of _ "r # xs"] exI[of _ ys]) simp
    next
      assume "\<exists>r. ys = r # tl ys \<and> map ref_of (map_set key (n, t) m) = xs @ [n] @ tl ys"
      with a b show ?thesis by (intro exI[of _ "r # xs"] exI[of _ ys]) simp
    qed
  qed
qed

lemma distinct_refs_map_set:
  assumes "distinct (map ref_of m)" and "n \<notin> set (map ref_of m)"
  shows "distinct (map ref_of (map_set key (n, t) m))"
proof -
  from map_ref_map_set[of m key n t] obtain xs ys where xy: "map ref_of m = xs @ ys"
    and alt: "map ref_of (map_set key (n, t) m) = xs @ [n] @ ys
        \<or> (\<exists>r. ys = r # tl ys \<and> map ref_of (map_set key (n, t) m) = xs @ [n] @ tl ys)"
    by blast
  from assms xy have d: "distinct (xs @ ys)" and nx: "n \<notin> set xs" and ny: "n \<notin> set ys"
    by (simp_all del: set_map)
  from alt show ?thesis
  proof
    assume "map ref_of (map_set key (n, t) m) = xs @ [n] @ ys"
    with d nx ny show ?thesis by auto
  next
    assume "\<exists>r. ys = r # tl ys \<and> map ref_of (map_set key (n, t) m) = xs @ [n] @ tl ys"
    then obtain r where ys: "ys = r # tl ys"
      and eq: "map ref_of (map_set key (n, t) m) = xs @ [n] @ tl ys" by blast
    from d ys have "distinct (xs @ r # tl ys)" by metis
    moreover from ny ys have "n \<notin> set (tl ys)" by (metis list.set_intros(2))
    ultimately show ?thesis using nx by (auto simp: eq)
  qed
qed

lemma store_ok_new: "store_ok (TaskManager_new mc ts mr)"
  by (simp add: TaskManager_new_def store_ok_def)

lemma store_ok_addTask:
  assumes "store_ok m"
  shows "store_ok (addTask task m)"
proof -
  let ?m' = "map_set (task_id task) (next_ref m, task) (tasks m)"
  from assms have ok: "\<forall>kv \<in> set (tasks m). (case kv of (k, (r, t)) \<Rightarrow> task_id t = k \<and> r < next_ref m)"
    by (simp add: store_ok_def list_all_iff)
  have "distinct (map fst ?m')"
    using assms by (simp add: distinct_map_set store_ok_def)
  moreover have "distinct (map ref_of ?m')"
  proof (rule distinct_refs_map_set)
    show "distinct (map ref_of (tasks m))" using assms by (simp add: store_ok_def)
    show "next_ref m \<notin> set (map ref_of (tasks m))"
    proof
      assume "next_ref m \<in> set (map ref_of (tasks m))"
      then obtain kv where "kv \<in> set (tasks m)" and "ref_of kv = next_ref m" by auto
      with ok show False by (cases kv) (auto simp: ref_of_def)
    qed
  qed
  moreover have "\<forall>kv \<in> set ?m'. (case kv of (k, (r, t)) \<Rightarrow> task_id t = k \<and> r < Suc (next_ref m))"
  proof
    fix x assume "x \<in> set ?m'"
    with set_map_set[of "task_id task" "(next_ref m, task)" "tasks m"]
    have "x = (task_id task, (next_ref m, task)) \<or> x \<in> set (tasks m)" by auto
    with ok show "case x of (k, (r, t)) \<Rightarrow> task_id t = k \<and> r < Suc (next_ref m)" by fastforce
  qed
  ultimately show ?thesis
    by (simp add: addTask_def store_ok_def list_all_iff)
qed

lemma store_ok_filter:
  assumes "store_ok m"
  shows "store_ok (m\<lparr> tasks := filter P (tasks m) \<rparr>)"
  using assms by (auto simp: store_ok_def list_all_iff distinct_map_filter)

lemma store_ok_removeTask: "store_ok m \<Longrightarrow> store_ok (snd (removeTask tid m))"
  by (simp add: removeTask_def map_delete_def store_ok_filter)

lemma store_ok_clearCompleted: "store_ok m \<Longrightarrow> store_ok (snd (clearCompleted m))"
  by (simp add: clearCompleted_def store_ok_filter)

lemma distinct_set_add: "distinct s \<Longrightarrow> distinct (set_add x s)"
  by (simp add: set_add_def)

lemma distinct_set_delete: "distinct s \<Longrightarrow> distinct (set_delete x s)"
  by (simp add: set_delete_def)

subsection \<open>Scheduler\<close>

lemma deps_satisfied_iff:
  "deps_satisfied m ds \<longleftrightarrow> (\<forall>dep \<in> set ds. \<exists>r d. map_get m dep = Some (r, d) \<and> status d = Completed)"
  by (induction ds) (auto split: option.splits)

text \<open>
  C1. A task whose \<^verbatim>\<open>dependsOn\<close> list names a dependency that is missing from the store, or
  whose task is not completed, is never in the result of \<^verbatim>\<open>getPendingTasks\<close>: whatever the
  store, the time, the task's priority and the other tasks are. The statement holds for every
  task value, so in particular for every task of the store.
\<close>

theorem C1_unmet_dependency_never_eligible:
  assumes "dependsOn task = Some ds" and "dep \<in> set ds"
    and "getTask m dep = None
         \<or> (\<exists>d. getTask m dep = Some d \<and> status d \<noteq> Completed)"
  shows "task \<notin> set (getPendingTasks m now)"
proof -
  from assms(3) have "\<not> (\<exists>r d. map_get (tasks m) dep = Some (r, d) \<and> status d = Completed)"
    by (auto simp: getTask_def)
  with assms(2) have "\<not> deps_satisfied (tasks m) ds"
    unfolding deps_satisfied_iff by blast
  with assms(1) have "\<not> pending_filter (tasks m) now task"
    by (simp add: pending_filter_def)
  then show ?thesis
    by (simp add: getPendingTasks_def)
qed

text \<open>
  An instance: a critical task \<open>b\<close> that depends on the pending task \<open>a\<close> is left out, although
  it outranks \<open>a\<close>.
\<close>

theorem C1_unmet_dependency_witness:
  "dependsOn ((simple_task ''b'' Critical)\<lparr> dependsOn := Some [''a''] \<rparr>) = Some [''a'']
   \<and> ''a'' \<in> set [''a'']
   \<and> (\<exists>d. getTask (addTask ((simple_task ''b'' Critical)\<lparr> dependsOn := Some [''a''] \<rparr>)
                      (addTask (simple_task ''a'' Low) (TaskManager_new None None None))) ''a'' = Some d
          \<and> status d \<noteq> Completed)
   \<and> (simple_task ''b'' Critical)\<lparr> dependsOn := Some [''a''] \<rparr>
       \<notin> set (getPendingTasks
                (addTask ((simple_task ''b'' Critical)\<lparr> dependsOn := Some [''a''] \<rparr>)
                   (addTask (simple_task ''a'' Low) (TaskManager_new None None None))) 0)"
proof -
  let ?b = "(simple_task ''b'' Critical)\<lparr> dependsOn := Some [''a''] \<rparr>"
  let ?m = "addTask ?b (addTask (simple_task ''a'' Low) (TaskManager_new None None None))"
  have h1: "dependsOn ?b = Some [''a'']" by simp
  have h2: "''a'' \<in> set [''a'']" by simp
  have h3: "\<exists>d. getTask ?m ''a'' = Some d \<and> status d \<noteq> Completed"
    by (simp add: getTask_def addTask_def TaskManager_new_def simple_task_def map_get_def)
  from h3 have h3': "getTask ?m ''a'' = None
                     \<or> (\<exists>d. getTask ?m ''a'' = Some d \<and> status d \<noteq> Completed)" ..
  from C1_unmet_dependency_never_eligible[OF h1 h2 h3', of 0] h1 h2 h3 show ?thesis by blast
qed

text \<open>
  C2. \<^verbatim>\<open>getPendingTasks\<close> returns the eligible tasks sorted by the rank critical(0) < high(1)
  < medium(2) < low(3) < periodic(4); the sort is stable, so the tasks of one rank stay in the
  insertion order of the store; and for the pending, dependency-free tasks \<open>a\<close> (low),
  \<open>b\<close> (critical), \<open>c\<close> (high) added in that order the result is exactly \<open>[b, c, a]\<close>.
\<close>

theorem C2_sorted_by_rank_stable:
  "map priorityOrder [Critical, High, Medium, Low, Periodic] = [0, 1, 2, 3, 4]
   \<and> sorted (map (\<lambda>t. priorityOrder (priority t)) (getPendingTasks m now))
   \<and> (\<forall>k. filter (\<lambda>t. priorityOrder (priority t) = k) (getPendingTasks m now)
          = filter (\<lambda>t. priorityOrder (priority t) = k)
              (filter (pending_filter (tasks m) now) (all_tasks m)))
   \<and> getPendingTasks
        (addTask (simple_task ''c'' High)
          (addTask (simple_task ''b'' Critical)
            (addTask (simple_task ''a'' Low) (TaskManager_new None None None)))) now
      = [simple_task ''b'' Critical, simple_task ''c'' High, simple_task ''a'' Low]"
proof (intro conjI)
  show "map priorityOrder [Critical, High, Medium, Low, Periodic] = [0, 1, 2, 3, 4]"
    by (simp add: priorityOrder_def)
  show "sorted (map (\<lambda>t. priorityOrder (priority t)) (getPendingTasks m now))"
    by (simp add: getPendingTasks_def)
  show "\<forall>k. filter (\<lambda>t. priorityOrder (priority t) = k) (getPendingTasks m now)
          = filter (\<lambda>t. priorityOrder (priority t) = k)
              (filter (pending_filter (tasks m) now) (all_tasks m))"
    unfolding getPendingTasks_def by (simp add: sort_key_stable)
  show "getPendingTasks
        (addTask (simple_task ''c'' High)
          (addTask (simple_task ''b'' Critical)
            (addTask (simple_task ''a'' Low) (TaskManager_new None None None)))) now
      = [simple_task ''b'' Critical, simple_task ''c'' High, simple_task ''a'' Low]"
    by (simp add: getPendingTasks_def addTask_def TaskManager_new_def simple_task_def all_tasks_def
          map_values_def pending_filter_def periodic_not_due_def priorityOrder_def)
qed

subsection \<open>Executor: one execution run to its end\<close>

lemma record_result_status: "record_result r t (task\<lparr> status := st \<rparr>) = record_result r t task"
  by (simp add: record_result_def Let_def)

lemma record_result_periodic_success:
  "success r \<Longrightarrow> priority task = Periodic \<Longrightarrow>
     record_result r t task = task\<lparr> status := Pending, lastRunAt := Some t \<rparr>"
  by (simp add: record_result_def Let_def)

lemma record_result_not_completed:
  "priority task = Periodic \<Longrightarrow> status (record_result r t task) \<noteq> Completed"
  by (simp add: record_result_def Let_def)

lemma getTask_after_write:
  assumes "map_get (tasks m) tid = Some (r, task)" and "tasks m' = obj_write r f (tasks m)"
  shows "getTask m' tid = Some (f task)"
  using assms by (simp add: getTask_def map_get_obj_write)

lemma settle_failure:
  assumes "is_failure a" and "int (Suc (retries fr)) \<le> maxRetries (config m)"
  shows "executeTask_settle m fr a now =
           (Awaiting (fr\<lparr> lastError := failure_message (config m) a, retries := Suc (retries fr) \<rparr>), m)"
  using assms
  by (cases a) (simp_all add: executeTask_settle_def is_failure_def failure_message_def while_head_def)

lemma settle_last_failure:
  assumes "is_failure a" and "\<not> int (Suc (retries fr)) \<le> maxRetries (config m)"
  shows "executeTask_settle m fr a now =
           (Returned (Some \<lparr> success = False, output_text = None,
                            error = failure_message (config m) a, metrics = None \<rparr>),
            m\<lparr> tasks := obj_write (task_ref fr) (\<lambda>task. task\<lparr> status := Failed \<rparr>) (tasks m),
               runningTasks := set_delete (taskId fr) (runningTasks m) \<rparr>)"
  using assms
  by (cases a) (simp_all add: executeTask_settle_def is_failure_def failure_message_def while_head_def)

lemma run_resolves:
  assumes "int k \<le> maxRetries (config m)" and "retries fr \<le> k"
    and "\<forall>j. retries fr \<le> j \<and> j < k \<longrightarrow> is_failure (fst (e j))"
    and "fst (e k) = Resolves r"
  shows "executeTask_run e m fr =
           (Some r, m\<lparr> tasks := obj_write (task_ref fr) (record_result r (snd (e k))) (tasks m),
                        runningTasks := set_delete (taskId fr) (runningTasks m) \<rparr>)"
  using assms
proof (induction "k - retries fr" arbitrary: fr)
  case 0
  then have "retries fr = k" by simp
  with 0 show ?case
    by (subst executeTask_run.simps) (simp add: executeTask_settle_def)
next
  case (Suc n)
  then have lt: "retries fr < k" by simp
  with Suc.prems have f: "is_failure (fst (e (retries fr)))" by simp
  define fr' where "fr' = fr\<lparr> lastError := failure_message (config m) (fst (e (retries fr))),
                                retries := Suc (retries fr) \<rparr>"
  have r': "retries fr' = Suc (retries fr)" and t': "taskId fr' = taskId fr"
    and o': "task_ref fr' = task_ref fr"
    by (simp_all add: fr'_def)
  from lt Suc.prems(1) have le: "int (Suc (retries fr)) \<le> maxRetries (config m)" by simp
  have s: "executeTask_settle m fr (fst (e (retries fr))) (snd (e (retries fr))) = (Awaiting fr', m)"
    unfolding fr'_def by (rule settle_failure[OF f le])
  have "executeTask_run e m fr = executeTask_run e m fr'"
    by (subst executeTask_run.simps) (simp add: s)
  also have "\<dots> = (Some r, m\<lparr> tasks := obj_write (task_ref fr') (record_result r (snd (e k))) (tasks m),
                        runningTasks := set_delete (taskId fr') (runningTasks m) \<rparr>)"
  proof (rule Suc.hyps(1))
    show "n = k - retries fr'" using Suc.hyps(2) by (simp add: r')
    show "int k \<le> maxRetries (config m)" by (rule Suc.prems(1))
    show "retries fr' \<le> k" using lt by (simp add: r')
    show "\<forall>j. retries fr' \<le> j \<and> j < k \<longrightarrow> is_failure (fst (e j))"
      using Suc.prems(3) by (simp add: r')
    show "fst (e k) = Resolves r" by (rule Suc.prems(4))
  qed
  finally show ?case by (simp add: t' o')
qed

lemma run_exhausted:
  assumes "int (retries fr) \<le> maxRetries (config m)"
    and "\<forall>j. retries fr \<le> j \<and> int j \<le> maxRetries (config m) \<longrightarrow> is_failure (fst (e j))"
  shows "executeTask_run e m fr =
           (Some \<lparr> success = False, output_text = None,
                   error = failure_message (config m) (fst (e (nat (maxRetries (config m))))),
                   metrics = None \<rparr>,
            m\<lparr> tasks := obj_write (task_ref fr) (\<lambda>task. task\<lparr> status := Failed \<rparr>) (tasks m),
               runningTasks := set_delete (taskId fr) (runningTasks m) \<rparr>)"
  using assms
proof (induction "nat (maxRetries (config m)) - retries fr" arbitrary: fr)
  case 0
  then have eq: "retries fr = nat (maxRetries (config m))" by simp
  with 0 have f: "is_failure (fst (e (retries fr)))" by simp
  from eq 0 have last: "\<not> int (Suc (retries fr)) \<le> maxRetries (config m)" by simp
  note s = settle_last_failure[OF f last, of "snd (e (retries fr))"]
  show ?case
    by (subst executeTask_run.simps, subst s) (simp add: eq)
next
  case (Suc n)
  then have le: "int (Suc (retries fr)) \<le> maxRetries (config m)" by simp
  with Suc.prems have f: "is_failure (fst (e (retries fr)))" by simp
  define fr' where "fr' = fr\<lparr> lastError := failure_message (config m) (fst (e (retries fr))),
                                retries := Suc (retries fr) \<rparr>"
  have r': "retries fr' = Suc (retries fr)" and t': "taskId fr' = taskId fr"
    and o': "task_ref fr' = task_ref fr"
    by (simp_all add: fr'_def)
  have s: "executeTask_settle m fr (fst (e (retries fr))) (snd (e (retries fr))) = (Awaiting fr', m)"
    unfolding fr'_def by (rule settle_failure[OF f le])
  have "executeTask_run e m fr = executeTask_run e m fr'"
    by (subst executeTask_run.simps) (simp add: s)
  also have "\<dots> = (Some \<lparr> success = False, output_text = None,
                   error = failure_message (config m) (fst (e (nat (maxRetries (config m))))),
                   metrics = None \<rparr>,
            m\<lparr> tasks := obj_write (task_ref fr') (\<lambda>task. task\<lparr> status := Failed \<rparr>) (tasks m),
               runningTasks := set_delete (taskId fr') (runningTasks m) \<rparr>)"
  proof (rule Suc.hyps(1))
    show "n = nat (maxRetries (config m)) - retries fr'" using Suc.hyps(2) by (simp add: r')
    show "int (retries fr') \<le> maxRetries (config m)" using le by (simp add: r')
    show "\<forall>j. retries fr' \<le> j \<and> int j \<le> maxRetries (config m) \<longrightarrow> is_failure (fst (e j))"
      using Suc.prems(2) by (simp add: r')
  qed
  finally show ?case by (simp add: t' o')
qed

lemma executeTask_begin_present:
  assumes "map_get (tasks m) tid = Some (r, task)" and "0 \<le> maxRetries (config m)"
  shows "executeTask_begin m tid =
           (Awaiting \<lparr> taskId = tid, task_ref = r, retries = 0, lastError = None \<rparr>,
            m\<lparr> tasks := obj_write r (\<lambda>task. task\<lparr> status := Running \<rparr>) (tasks m),
               runningTasks := set_add tid (runningTasks m) \<rparr>)"
  using assms by (simp add: executeTask_begin_def while_head_def)

lemma executeTask_begin_no_attempt:
  assumes "map_get (tasks m) tid = Some (r, task)" and "maxRetries (config m) < 0"
  shows "executeTask_begin m tid =
           (Returned (Some \<lparr> success = False, output_text = None, error = None, metrics = None \<rparr>),
            m\<lparr> tasks := obj_write r (\<lambda>task. task\<lparr> status := Failed \<rparr>) (tasks m),
               runningTasks := set_delete tid (runningTasks m) \<rparr>)"
  using assms
  by (simp add: executeTask_begin_def while_head_def obj_write_obj_write set_delete_set_add)

lemma executeTask_resolves:
  assumes "map_get (tasks m) tid = Some (r, task)" and "int k \<le> maxRetries (config m)"
    and "\<forall>j<k. is_failure (fst (e j))" and "fst (e k) = Resolves res"
  shows "executeTask e m tid =
           (Some res, m\<lparr> tasks := obj_write r (record_result res (snd (e k))) (tasks m),
                          runningTasks := set_delete tid (runningTasks m) \<rparr>)"
proof -
  let ?m1 = "m\<lparr> tasks := obj_write r (\<lambda>task. task\<lparr> status := Running \<rparr>) (tasks m),
               runningTasks := set_add tid (runningTasks m) \<rparr>"
  let ?fr = "\<lparr> taskId = tid, task_ref = r, retries = 0, lastError = None \<rparr>"
  from assms(2) have nn: "0 \<le> maxRetries (config m)" by simp
  have "executeTask e m tid = executeTask_run e ?m1 ?fr"
    by (simp add: executeTask_def executeTask_begin_present[OF assms(1) nn])
  also have "\<dots> = (Some res, ?m1\<lparr> tasks := obj_write (task_ref ?fr) (record_result res (snd (e k))) (tasks ?m1),
                        runningTasks := set_delete (taskId ?fr) (runningTasks ?m1) \<rparr>)"
    using assms(2-4) by (intro run_resolves) simp_all
  finally show ?thesis
    by (simp add: obj_write_obj_write set_delete_set_add record_result_status)
qed

lemma executeTask_exhausted:
  assumes "map_get (tasks m) tid = Some (r, task)"
    and "\<forall>j. int j \<le> maxRetries (config m) \<longrightarrow> is_failure (fst (e j))"
  shows "executeTask e m tid =
           (Some \<lparr> success = False, output_text = None,
                   error = (if maxRetries (config m) < 0 then None
                            else failure_message (config m) (fst (e (nat (maxRetries (config m)))))),
                   metrics = None \<rparr>,
            m\<lparr> tasks := obj_write r (\<lambda>task. task\<lparr> status := Failed \<rparr>) (tasks m),
               runningTasks := set_delete tid (runningTasks m) \<rparr>)"
proof (cases "maxRetries (config m) < 0")
  case True
  then show ?thesis
    by (simp add: executeTask_def executeTask_begin_no_attempt[OF assms(1) True])
next
  case False
  then have nn: "0 \<le> maxRetries (config m)" by simp
  let ?m1 = "m\<lparr> tasks := obj_write r (\<lambda>task. task\<lparr> status := Running \<rparr>) (tasks m),
               runningTasks := set_add tid (runningTasks m) \<rparr>"
  let ?fr = "\<lparr> taskId = tid, task_ref = r, retries = 0, lastError = None \<rparr>"
  have "executeTask e m tid = executeTask_run e ?m1 ?fr"
    by (simp add: executeTask_def executeTask_begin_present[OF assms(1) nn])
  also have "\<dots> = (Some \<lparr> success = False, output_text = None,
                   error = failure_message (config ?m1) (fst (e (nat (maxRetries (config ?m1))))),
                   metrics = None \<rparr>,
            ?m1\<lparr> tasks := obj_write (task_ref ?fr) (\<lambda>task. task\<lparr> status := Failed \<rparr>) (tasks ?m1),
               runningTasks := set_delete (taskId ?fr) (runningTasks ?m1) \<rparr>)"
    using assms(2) nn by (intro run_exhausted) simp_all
  finally show ?thesis
    using False by (simp add: obj_write_obj_write set_delete_set_add)
qed

lemma not_failure_resolves: "\<not> is_failure a \<Longrightarrow> \<exists>r. a = Resolves r"
  by (cases a) (simp_all add: is_failure_def)

lemma attempts_cases:
  fixes e :: env
  shows "(\<exists>k. int k \<le> n \<and> (\<forall>j<k. is_failure (fst (e j))) \<and> (\<exists>r. fst (e k) = Resolves r))
         \<or> (\<forall>j. int j \<le> n \<longrightarrow> is_failure (fst (e j)))"
proof (cases "\<forall>j. int j \<le> n \<longrightarrow> is_failure (fst (e j))")
  case True
  then show ?thesis by simp
next
  case False
  then obtain j where j: "int j \<le> n" "\<not> is_failure (fst (e j))" by blast
  define k where "k = (LEAST i. \<not> is_failure (fst (e i)))"
  have nk: "\<not> is_failure (fst (e k))"
    unfolding k_def using j(2) by (rule LeastI)
  have kj: "k \<le> j" unfolding k_def using j(2) by (rule Least_le)
  have before: "\<forall>i<k. is_failure (fst (e i))"
    unfolding k_def using not_less_Least by blast
  from nk obtain r where "fst (e k) = Resolves r" using not_failure_resolves by blast
  moreover from kj j(1) have "int k \<le> n" by simp
  ultimately show ?thesis using before by blast
qed

lemma executeTask_outcome:
  assumes "map_get (tasks m) tid = Some (r, task)"
  shows "(\<exists>k res. int k \<le> maxRetries (config m) \<and> fst (e k) = Resolves res \<and>
            executeTask e m tid =
              (Some res, m\<lparr> tasks := obj_write r (record_result res (snd (e k))) (tasks m),
                             runningTasks := set_delete tid (runningTasks m) \<rparr>))
       \<or> (\<exists>msg. executeTask e m tid =
              (Some \<lparr> success = False, output_text = None, error = msg, metrics = None \<rparr>,
               m\<lparr> tasks := obj_write r (\<lambda>task. task\<lparr> status := Failed \<rparr>) (tasks m),
                  runningTasks := set_delete tid (runningTasks m) \<rparr>))"
  using attempts_cases[of "maxRetries (config m)" e]
proof
  assume "\<exists>k. int k \<le> maxRetries (config m) \<and> (\<forall>j<k. is_failure (fst (e j))) \<and> (\<exists>r. fst (e k) = Resolves r)"
  then obtain k res where k: "int k \<le> maxRetries (config m)" "\<forall>j<k. is_failure (fst (e j))"
    "fst (e k) = Resolves res"
    by blast
  from executeTask_resolves[OF assms k] k(1,3) show ?thesis by blast
next
  assume "\<forall>j. int j \<le> maxRetries (config m) \<longrightarrow> is_failure (fst (e j))"
  from executeTask_exhausted[OF assms this] show ?thesis by blast
qed

text \<open>
  C3. Let a periodic task be stored under \<open>tid\<close>. Whatever an execution of it does, the task
  is not left completed. When the execution succeeds (it returns a result with
  \<^verbatim>\<open>success: true\<close>), the task is left pending with \<^verbatim>\<open>lastRunAt\<close> stamped at some time
  \<open>t\<close>; at every later time \<open>now\<close> with \<open>(now - t) / 1000 < intervalSeconds\<close> the task is not in
  the result of \<^verbatim>\<open>getPendingTasks\<close>, and at every time at which the interval (if the task
  has one) has elapsed and the dependencies are satisfied it is in the result. A periodic task
  that is pending and has no \<^verbatim>\<open>lastRunAt\<close> is in the result as soon as its dependencies
  are satisfied.
\<close>

theorem C3_periodic_rearm:
  assumes "getTask m tid = Some task" and "priority task = Periodic"
  shows "(executeTask e m tid = (res, m') \<longrightarrow>
            (\<exists>task'. getTask m' tid = Some task' \<and> status task' \<noteq> Completed))
       \<and> (executeTask e m tid = (Some r, m'') \<and> success r \<longrightarrow>
            (\<exists>t. getTask m'' tid = Some (task\<lparr> status := Pending, lastRunAt := Some t \<rparr>)
               \<and> (\<forall>now iv. t \<le> now \<and> intervalSeconds task = Some iv \<and> of_int (now - t) / 1000 < iv
                     \<longrightarrow> task\<lparr> status := Pending, lastRunAt := Some t \<rparr> \<notin> set (getPendingTasks m'' now))
               \<and> (\<forall>now. (\<forall>iv. intervalSeconds task = Some iv \<longrightarrow> iv \<le> of_int (now - t) / 1000)
                        \<and> (\<forall>ds. dependsOn task = Some ds \<longrightarrow> deps_satisfied (tasks m'') ds)
                     \<longrightarrow> task\<lparr> status := Pending, lastRunAt := Some t \<rparr> \<in> set (getPendingTasks m'' now))))
       \<and> (status task = Pending \<and> lastRunAt task = None
            \<and> (\<forall>ds. dependsOn task = Some ds \<longrightarrow> deps_satisfied (tasks m) ds)
            \<longrightarrow> task \<in> set (getPendingTasks m now0))"
proof (intro conjI impI)
  from assms(1) obtain rf where g: "map_get (tasks m) tid = Some (rf, task)"
    by (auto simp: getTask_def)
  assume run: "executeTask e m tid = (res, m')"
  from executeTask_outcome[OF g, of e]
  show "\<exists>task'. getTask m' tid = Some task' \<and> status task' \<noteq> Completed"
  proof (elim disjE exE conjE)
    fix k r'
    assume "executeTask e m tid =
              (Some r', m\<lparr> tasks := obj_write rf (record_result r' (snd (e k))) (tasks m),
                           runningTasks := set_delete tid (runningTasks m) \<rparr>)"
    with run have "tasks m' = obj_write rf (record_result r' (snd (e k))) (tasks m)" by auto
    from getTask_after_write[OF g this] show ?thesis
      using assms(2) by (simp add: record_result_not_completed)
  next
    fix msg
    assume "executeTask e m tid =
              (Some \<lparr> success = False, output_text = None, error = msg, metrics = None \<rparr>,
               m\<lparr> tasks := obj_write rf (\<lambda>task. task\<lparr> status := Failed \<rparr>) (tasks m),
                  runningTasks := set_delete tid (runningTasks m) \<rparr>)"
    with run have "tasks m' = obj_write rf (\<lambda>task. task\<lparr> status := Failed \<rparr>) (tasks m)" by auto
    from getTask_after_write[OF g this] show ?thesis
      by simp
  qed
next
  assume "executeTask e m tid = (Some r, m'') \<and> success r"
  then have run: "executeTask e m tid = (Some r, m'')" and ok: "success r" by simp_all
  from assms(1) obtain rf where g: "map_get (tasks m) tid = Some (rf, task)"
    by (auto simp: getTask_def)
  from executeTask_outcome[OF g, of e]
  obtain k where tm: "tasks m'' = obj_write rf (record_result r (snd (e k))) (tasks m)"
  proof (elim disjE exE conjE)
    fix k r'
    assume "executeTask e m tid =
              (Some r', m\<lparr> tasks := obj_write rf (record_result r' (snd (e k))) (tasks m),
                           runningTasks := set_delete tid (runningTasks m) \<rparr>)"
    with run have "tasks m'' = obj_write rf (record_result r (snd (e k))) (tasks m)" by auto
    then show ?thesis by (rule that)
  next
    fix msg
    assume "executeTask e m tid =
              (Some \<lparr> success = False, output_text = None, error = msg, metrics = None \<rparr>,
               m\<lparr> tasks := obj_write rf (\<lambda>task. task\<lparr> status := Failed \<rparr>) (tasks m),
                  runningTasks := set_delete tid (runningTasks m) \<rparr>)"
    with run ok have False by auto
    then show ?thesis ..
  qed
  define t where "t = snd (e k)"
  define task' where "task' = task\<lparr> status := Pending, lastRunAt := Some t \<rparr>"
  have get: "getTask m'' tid = Some task'"
    using getTask_after_write[OF g tm] assms(2) ok
    by (simp add: record_result_periodic_success t_def task'_def)
  have excl: "task' \<notin> set (getPendingTasks m'' now)"
    if "t \<le> now \<and> intervalSeconds task = Some iv \<and> of_int (now - t) / 1000 < iv" for now iv
  proof -
    from that have "(0::rat) \<le> of_int (now - t) / 1000" by simp
    with that have "iv \<noteq> 0" by auto
    with that assms(2) have "periodic_not_due task' now"
      by (simp add: periodic_not_due_def task'_def)
    then have "\<not> pending_filter (tasks m'') now task'"
      by (simp add: pending_filter_def)
    then show ?thesis by (simp add: getPendingTasks_def)
  qed
  have incl: "task' \<in> set (getPendingTasks m'' now)"
    if "(\<forall>iv. intervalSeconds task = Some iv \<longrightarrow> iv \<le> of_int (now - t) / 1000)
        \<and> (\<forall>ds. dependsOn task = Some ds \<longrightarrow> deps_satisfied (tasks m'') ds)" for now
  proof -
    from that have "\<not> periodic_not_due task' now"
      by (auto simp: periodic_not_due_def task'_def split: option.splits)
    with that have "pending_filter (tasks m'') now task'"
      by (auto simp: pending_filter_def task'_def split: option.splits)
    with getTask_in_all_tasks[OF get] show ?thesis by (simp add: getPendingTasks_def)
  qed
  from get excl incl
  show "\<exists>t. getTask m'' tid = Some (task\<lparr> status := Pending, lastRunAt := Some t \<rparr>)
          \<and> (\<forall>now iv. t \<le> now \<and> intervalSeconds task = Some iv \<and> of_int (now - t) / 1000 < iv
                \<longrightarrow> task\<lparr> status := Pending, lastRunAt := Some t \<rparr> \<notin> set (getPendingTasks m'' now))
          \<and> (\<forall>now. (\<forall>iv. intervalSeconds task = Some iv \<longrightarrow> iv \<le> of_int (now - t) / 1000)
                   \<and> (\<forall>ds. dependsOn task = Some ds \<longrightarrow> deps_satisfied (tasks m'') ds)
                \<longrightarrow> task\<lparr> status := Pending, lastRunAt := Some t \<rparr> \<in> set (getPendingTasks m'' now))"
    unfolding task'_def by blast
next
  assume a: "status task = Pending \<and> lastRunAt task = None
            \<and> (\<forall>ds. dependsOn task = Some ds \<longrightarrow> deps_satisfied (tasks m) ds)"
  then have "\<not> periodic_not_due task now0"
    by (auto simp: periodic_not_due_def split: option.splits)
  with a have "pending_filter (tasks m) now0 task"
    by (auto simp: pending_filter_def split: option.splits)
  with getTask_in_all_tasks[OF assms(1)] show "task \<in> set (getPendingTasks m now0)"
    by (simp add: getPendingTasks_def)
qed

text \<open>
  An instance: the hourly task succeeds at time 1000 (milliseconds); it is pending again, left
  out one second later, and back in the result 3600 seconds after the run.
\<close>

theorem C3_periodic_rearm_witness:
  "getTask hourly_manager ''p'' = Some hourly_task
   \<and> priority hourly_task = Periodic
   \<and> executeTask (every_attempt (Resolves ok_result) 1000) hourly_manager ''p''
       = (Some ok_result, hourly_after_run)
   \<and> success ok_result
   \<and> getTask hourly_after_run ''p'' = Some (hourly_task\<lparr> status := Pending, lastRunAt := Some 1000 \<rparr>)
   \<and> hourly_task\<lparr> status := Pending, lastRunAt := Some 1000 \<rparr> \<notin> set (getPendingTasks hourly_after_run 2000)
   \<and> hourly_task\<lparr> status := Pending, lastRunAt := Some 1000 \<rparr> \<in> set (getPendingTasks hourly_after_run 3601000)
   \<and> hourly_task \<in> set (getPendingTasks hourly_manager 0)"
proof -
  let ?e = "every_attempt (Resolves ok_result) 1000"
  have g1: "map_get (tasks hourly_manager) ''p'' = Some (0, hourly_task)"
    by (simp add: hourly_manager_def hourly_task_def addTask_def TaskManager_new_def simple_task_def map_get_def)
  then have h1: "getTask hourly_manager ''p'' = Some hourly_task"
    by (simp add: getTask_def)
  have h2: "priority hourly_task = Periodic"
    by (simp add: hourly_task_def simple_task_def)
  have ok: "success ok_result" by (simp add: ok_result_def)
  have run: "executeTask ?e hourly_manager ''p'' = (Some ok_result, hourly_after_run)"
    using executeTask_resolves[OF g1, of 0 ?e ok_result]
    by (simp add: every_attempt_def record_result_def ok_result_def Let_def or_default_def
          hourly_after_run_def hourly_manager_def addTask_def TaskManager_new_def obj_write_def
          set_delete_def hourly_task_def simple_task_def)
  note th = C3_periodic_rearm[OF h1 h2, where e = ?e and m'' = hourly_after_run and r = ok_result
              and res = "Some ok_result" and m' = hourly_after_run and ?now0.0 = 0]
  from th run ok obtain t where
    t: "getTask hourly_after_run ''p'' = Some (hourly_task\<lparr> status := Pending, lastRunAt := Some t \<rparr>)"
    and ex: "\<forall>now iv. t \<le> now \<and> intervalSeconds hourly_task = Some iv \<and> of_int (now - t) / 1000 < iv
                     \<longrightarrow> hourly_task\<lparr> status := Pending, lastRunAt := Some t \<rparr> \<notin> set (getPendingTasks hourly_after_run now)"
    and inc: "\<forall>now. (\<forall>iv. intervalSeconds hourly_task = Some iv \<longrightarrow> iv \<le> of_int (now - t) / 1000)
                        \<and> (\<forall>ds. dependsOn hourly_task = Some ds \<longrightarrow> deps_satisfied (tasks hourly_after_run) ds)
                     \<longrightarrow> hourly_task\<lparr> status := Pending, lastRunAt := Some t \<rparr> \<in> set (getPendingTasks hourly_after_run now)"
    by blast
  from t have t1000: "t = 1000"
    by (simp add: getTask_def hourly_after_run_def map_get_def hourly_task_def simple_task_def)
  have iv: "intervalSeconds hourly_task = Some 3600" and nd: "dependsOn hourly_task = None"
    by (simp_all add: hourly_task_def simple_task_def)
  from ex[rule_format, of 2000 3600] iv
  have c1: "hourly_task\<lparr> status := Pending, lastRunAt := Some 1000 \<rparr> \<notin> set (getPendingTasks hourly_after_run 2000)"
    by (simp add: t1000)
  from inc[rule_format, of 3601000] iv nd
  have c2: "hourly_task\<lparr> status := Pending, lastRunAt := Some 1000 \<rparr> \<in> set (getPendingTasks hourly_after_run 3601000)"
    by (simp add: t1000)
  from th have "status hourly_task = Pending \<and> lastRunAt hourly_task = None
            \<and> (\<forall>ds. dependsOn hourly_task = Some ds \<longrightarrow> deps_satisfied (tasks hourly_manager) ds)
            \<longrightarrow> hourly_task \<in> set (getPendingTasks hourly_manager 0)" by blast
  then have c3: "hourly_task \<in> set (getPendingTasks hourly_manager 0)"
    using nd by (simp add: hourly_task_def simple_task_def)
  from h1 h2 run ok t c1 c2 c3 show ?thesis by (simp add: t1000)
qed

text \<open>
  C4. When \<^verbatim>\<open>executeNext\<close> is called while the number of running tasks equals
  \<^verbatim>\<open>maxConcurrent\<close>, it returns \<^verbatim>\<open>null\<close>, starts no execution (no call is suspended at an
  \<^verbatim>\<open>await\<close> afterwards), and leaves the task store and the running-set as they were.
\<close>

theorem C4_executeNext_at_capacity:
  assumes "int (length (runningTasks m)) = maxConcurrent (config m)"
  shows "executeNext_begin m now = (Returned None, m)
       \<and> executeNext e m now = (None, m)
       \<and> step \<lparr> manager = m, inflight = frs \<rparr> (CallExecuteNext now) = \<lparr> manager = m, inflight = frs \<rparr>"
  using assms by (simp add: executeNext_begin_def executeNext_def spawn_def)

text \<open>
  An instance: one slot, taken by \<open>a\<close>; the pending task \<open>b\<close> is eligible but not started.
\<close>

theorem C4_executeNext_at_capacity_witness:
  "int (length (runningTasks waiting_manager)) = maxConcurrent (config waiting_manager)
   \<and> getPendingTasks waiting_manager 0 = [simple_task ''b'' High]
   \<and> executeNext_begin waiting_manager 0 = (Returned None, waiting_manager)
   \<and> executeNext (every_attempt (Resolves ok_result) 1000) waiting_manager 0 = (None, waiting_manager)
   \<and> step waiting_system (CallExecuteNext 0) = waiting_system"
proof -
  have h: "int (length (runningTasks waiting_manager)) = maxConcurrent (config waiting_manager)"
    by (simp add: waiting_manager_def addTask_def TaskManager_new_def or_default_def)
  have p: "getPendingTasks waiting_manager 0 = [simple_task ''b'' High]"
    by (simp add: waiting_manager_def addTask_def TaskManager_new_def getPendingTasks_def all_tasks_def
          map_values_def pending_filter_def periodic_not_due_def simple_task_def)
  note th = C4_executeNext_at_capacity[OF h, of 0 "every_attempt (Resolves ok_result) 1000"
         "[\<lparr> taskId = ''a'', task_ref = 0, retries = 0, lastError = None \<rparr>]"]
  show ?thesis unfolding waiting_system_def using h p th by blast
qed




text \<open>
  C6, as the code has it. When every one of the \<open>1 + maxRetries\<close> attempts throws or times
  out, \<^verbatim>\<open>executeTask\<close> returns the failure result carrying the error of the last attempt
  and marks the task failed, but it does not stamp \<^verbatim>\<open>lastRunAt\<close>: the stored task is the
  task as it was with only its status changed, so \<^verbatim>\<open>lastRunAt\<close> keeps the value it had
  before the call. Lines 184-191 do not assign it, unlike lines 166-167 for an attempt that
  resolves.
\<close>

theorem C6_exhausted_retries_do_not_stamp_lastRunAt:
  assumes "map_get (tasks m) tid = Some (rf, task)"
    and "\<forall>j. int j \<le> maxRetries (config m) \<longrightarrow> is_failure (fst (e j))"
  shows "\<exists>m'. executeTask e m tid =
                 (Some \<lparr> success = False, output_text = None,
                         error = (if maxRetries (config m) < 0 then None
                                  else failure_message (config m) (fst (e (nat (maxRetries (config m)))))),
                         metrics = None \<rparr>, m')
              \<and> getTask m' tid = Some (task\<lparr> status := Failed \<rparr>)
              \<and> lastRunAt (task\<lparr> status := Failed \<rparr>) = lastRunAt task"
proof -
  note run = executeTask_exhausted[OF assms]
  have "getTask (snd (executeTask e m tid)) tid = Some (task\<lparr> status := Failed \<rparr>)"
    by (rule getTask_after_write[OF assms(1)]) (simp add: run)
  with run show ?thesis by simp
qed

text \<open>
  An instance: a task that was never run, with \<^verbatim>\<open>maxRetries = 2\<close> and an action that throws
  at each of the three attempts; afterwards the task is failed and \<^verbatim>\<open>lastRunAt\<close> is still
  unset.
\<close>

theorem C6_exhausted_retries_witness:
  "map_get (tasks single_manager) ''a'' = Some (0, simple_task ''a'' High)
   \<and> maxRetries (config single_manager) = 2
   \<and> is_failure (fst (every_attempt (Rejects ''boom'') 1000 0))
   \<and> is_failure (fst (every_attempt (Rejects ''boom'') 1000 1))
   \<and> is_failure (fst (every_attempt (Rejects ''boom'') 1000 2))
   \<and> lastRunAt (simple_task ''a'' High) = None
   \<and> executeTask (every_attempt (Rejects ''boom'') 1000) single_manager ''a''
      = (Some (failure_result ''boom''),
         single_manager\<lparr> tasks := [(''a'', (0, (simple_task ''a'' High)\<lparr> status := Failed, lastRunAt := None \<rparr>))] \<rparr>)"
proof -
  let ?e = "every_attempt (Rejects ''boom'') 1000"
  have h: "map_get (tasks single_manager) ''a'' = Some (0, simple_task ''a'' High)"
    by (simp add: single_manager_def addTask_def TaskManager_new_def map_get_def simple_task_def)
  have mr: "maxRetries (config single_manager) = 2"
    by (simp add: single_manager_def addTask_def TaskManager_new_def or_default_def)
  have f: "\<forall>j. int j \<le> maxRetries (config single_manager) \<longrightarrow> is_failure (fst (?e j))"
    by (simp add: every_attempt_def is_failure_def)
  from C6_exhausted_retries_do_not_stamp_lastRunAt[OF h f]
  obtain m' where run: "executeTask ?e single_manager ''a'' =
                 (Some \<lparr> success = False, output_text = None,
                         error = (if maxRetries (config single_manager) < 0 then None
                                  else failure_message (config single_manager)
                                         (fst (?e (nat (maxRetries (config single_manager)))))),
                         metrics = None \<rparr>, m')"
    and l: "lastRunAt ((simple_task ''a'' High)\<lparr> status := Failed \<rparr>) = lastRunAt (simple_task ''a'' High)"
    by blast
  have r: "\<lparr> success = False, output_text = None,
             error = (if maxRetries (config single_manager) < 0 then None
                      else failure_message (config single_manager)
                             (fst (?e (nat (maxRetries (config single_manager)))))),
             metrics = None \<rparr> = failure_result ''boom''"
    by (simp add: mr failure_result_def failure_message_def every_attempt_def)
  have m: "snd (executeTask ?e single_manager ''a'')
           = single_manager\<lparr> tasks := [(''a'', (0, (simple_task ''a'' High)\<lparr> status := Failed, lastRunAt := None \<rparr>))] \<rparr>"
    using executeTask_exhausted[OF h f]
    by (simp add: single_manager_def addTask_def TaskManager_new_def obj_write_def set_delete_def
          simple_task_def)
  from run r have "fst (executeTask ?e single_manager ''a'') = Some (failure_result ''boom'')" by simp
  with m have res: "executeTask ?e single_manager ''a''
      = (Some (failure_result ''boom''),
         single_manager\<lparr> tasks := [(''a'', (0, (simple_task ''a'' High)\<lparr> status := Failed, lastRunAt := None \<rparr>))] \<rparr>)"
    by (simp add: prod_eq_iff)
  have n: "lastRunAt (simple_task ''a'' High) = None" by (simp add: simple_task_def)
  have fs: "is_failure (fst (?e 0))" "is_failure (fst (?e 1))" "is_failure (fst (?e 2))"
    by (simp_all add: every_attempt_def is_failure_def)
  from h mr fs n res show ?thesis by blast
qed

subsection \<open>Direct calls of executeTask\<close>

text \<open>
  C10, as the code has it. A direct call of \<^verbatim>\<open>executeTask\<close> for a stored id never compares the
  size of the running-set with \<^verbatim>\<open>maxConcurrent\<close> and never reads the task's status. When
  \<^verbatim>\<open>maxRetries\<close> is not negative, the call marks the task running (the stored task read back
  afterwards has status running, whatever it was), registers the id, and invokes the action:
  the call is suspended at its \<^verbatim>\<open>await\<close>, one more execution of the id is in flight. In
  particular, when the running-set is full, \<^verbatim>\<open>executeNext\<close> returns \<^verbatim>\<open>null\<close> but
  \<^verbatim>\<open>executeTask\<close> still starts an execution: the running count and the number of executions
  in flight exceed \<^verbatim>\<open>maxConcurrent\<close>. When \<^verbatim>\<open>maxRetries\<close> is negative, the loop of lines
  162-182 is skipped: the action is not invoked, the call returns the failure result with no
  error at once, and the task is left failed, not running.
\<close>

theorem C10_executeTask_unguarded:
  assumes "map_get (tasks m) tid = Some (rf, task)"
  shows "(0 \<le> maxRetries (config m) \<longrightarrow>
            executeTask_begin m tid =
              (Awaiting \<lparr> taskId = tid, task_ref = rf, retries = 0, lastError = None \<rparr>,
               m\<lparr> tasks := obj_write rf (\<lambda>task. task\<lparr> status := Running \<rparr>) (tasks m),
                  runningTasks := set_add tid (runningTasks m) \<rparr>)
          \<and> getTask (snd (executeTask_begin m tid)) tid = Some (task\<lparr> status := Running \<rparr>)
          \<and> tid \<in> set (runningTasks (snd (executeTask_begin m tid)))
          \<and> step \<lparr> manager = m, inflight = frs \<rparr> (CallExecuteTask tid) =
              \<lparr> manager = snd (executeTask_begin m tid),
                inflight = frs @ [\<lparr> taskId = tid, task_ref = rf, retries = 0, lastError = None \<rparr>] \<rparr>
          \<and> executions_of (step \<lparr> manager = m, inflight = frs \<rparr> (CallExecuteTask tid)) tid
              = Suc (executions_of \<lparr> manager = m, inflight = frs \<rparr> tid)
          \<and> (int (length (runningTasks m)) = maxConcurrent (config m)
               \<longrightarrow> executeNext_begin m now = (Returned None, m))
          \<and> (int (length (runningTasks m)) = maxConcurrent (config m) \<and> tid \<notin> set (runningTasks m)
               \<longrightarrow> int (getRunningCount (manager (step \<lparr> manager = m, inflight = frs \<rparr> (CallExecuteTask tid))))
                     = maxConcurrent (config m) + 1)
          \<and> (int (length frs) = maxConcurrent (config m)
               \<longrightarrow> int (length (inflight (step \<lparr> manager = m, inflight = frs \<rparr> (CallExecuteTask tid))))
                     = maxConcurrent (config m) + 1))
       \<and> (maxRetries (config m) < 0 \<longrightarrow>
            fst (executeTask_begin m tid) =
              Returned (Some \<lparr> success = False, output_text = None, error = None, metrics = None \<rparr>)
          \<and> getTask (snd (executeTask_begin m tid)) tid = Some (task\<lparr> status := Failed \<rparr>)
          \<and> runningTasks (snd (executeTask_begin m tid)) = set_delete tid (runningTasks m)
          \<and> inflight (step \<lparr> manager = m, inflight = frs \<rparr> (CallExecuteTask tid)) = frs)"
proof (intro conjI impI)
  assume nn: "0 \<le> maxRetries (config m)"
  note b = executeTask_begin_present[OF assms nn]
  show "executeTask_begin m tid =
              (Awaiting \<lparr> taskId = tid, task_ref = rf, retries = 0, lastError = None \<rparr>,
               m\<lparr> tasks := obj_write rf (\<lambda>task. task\<lparr> status := Running \<rparr>) (tasks m),
                  runningTasks := set_add tid (runningTasks m) \<rparr>)"
    by (rule b)
  show "getTask (snd (executeTask_begin m tid)) tid = Some (task\<lparr> status := Running \<rparr>)"
    by (rule getTask_after_write[OF assms]) (simp add: b)
  show "tid \<in> set (runningTasks (snd (executeTask_begin m tid)))"
    by (simp add: b set_add_def)
  show s: "step \<lparr> manager = m, inflight = frs \<rparr> (CallExecuteTask tid) =
              \<lparr> manager = snd (executeTask_begin m tid),
                inflight = frs @ [\<lparr> taskId = tid, task_ref = rf, retries = 0, lastError = None \<rparr>] \<rparr>"
    by (simp add: b spawn_def)
  show "executions_of (step \<lparr> manager = m, inflight = frs \<rparr> (CallExecuteTask tid)) tid
              = Suc (executions_of \<lparr> manager = m, inflight = frs \<rparr> tid)"
    unfolding s by (simp add: executions_of_def)
  show "executeNext_begin m now = (Returned None, m)"
    if "int (length (runningTasks m)) = maxConcurrent (config m)"
    using that by (simp add: executeNext_begin_def)
  show "int (getRunningCount (manager (step \<lparr> manager = m, inflight = frs \<rparr> (CallExecuteTask tid))))
                     = maxConcurrent (config m) + 1"
    if "int (length (runningTasks m)) = maxConcurrent (config m) \<and> tid \<notin> set (runningTasks m)"
    unfolding s using that by (simp add: b getRunningCount_def set_add_def)
  show "int (length (inflight (step \<lparr> manager = m, inflight = frs \<rparr> (CallExecuteTask tid))))
                     = maxConcurrent (config m) + 1"
    if "int (length frs) = maxConcurrent (config m)"
    unfolding s using that by simp
next
  assume neg: "maxRetries (config m) < 0"
  note b = executeTask_begin_no_attempt[OF assms neg]
  show "fst (executeTask_begin m tid) =
              Returned (Some \<lparr> success = False, output_text = None, error = None, metrics = None \<rparr>)"
    by (simp add: b)
  show "getTask (snd (executeTask_begin m tid)) tid = Some (task\<lparr> status := Failed \<rparr>)"
    by (rule getTask_after_write[OF assms]) (simp add: b)
  show "runningTasks (snd (executeTask_begin m tid)) = set_delete tid (runningTasks m)"
    by (simp add: b)
  show "inflight (step \<lparr> manager = m, inflight = frs \<rparr> (CallExecuteTask tid)) = frs"
    by (simp add: b spawn_def)
qed

text \<open>
  An instance: one slot, taken by \<open>a\<close>, whose status is running, and a completed task \<open>b\<close>;
  \<^verbatim>\<open>executeNext\<close> refuses, \<^verbatim>\<open>executeTask\<close> of \<open>a\<close> puts a second execution of \<open>a\<close> in
  flight, and \<^verbatim>\<open>executeTask\<close> of \<open>b\<close> turns the status of \<open>b\<close> from completed to running
  and raises the running count to 2. With \<^verbatim>\<open>maxRetries: -1\<close> the task \<open>a\<close> is read back
  failed.
\<close>

theorem C10_executeTask_unguarded_witness:
  "map_get (tasks busy_manager) ''a'' = Some (0, (simple_task ''a'' High)\<lparr> status := Running \<rparr>)
   \<and> map_get (tasks busy_manager) ''b'' = Some (1, (simple_task ''b'' High)\<lparr> status := Completed \<rparr>)
   \<and> 0 \<le> maxRetries (config busy_manager)
   \<and> int (length (runningTasks busy_manager)) = maxConcurrent (config busy_manager)
   \<and> int (length (inflight busy_system)) = maxConcurrent (config busy_manager)
   \<and> maxConcurrent (config busy_manager) = 1
   \<and> ''b'' \<notin> set (runningTasks busy_manager)
   \<and> executeNext_begin busy_manager 0 = (Returned None, busy_manager)
   \<and> inflight (step busy_system (CallExecuteTask ''a''))
       = [\<lparr> taskId = ''a'', task_ref = 0, retries = 0, lastError = None \<rparr>,
          \<lparr> taskId = ''a'', task_ref = 0, retries = 0, lastError = None \<rparr>]
   \<and> length (inflight (step busy_system (CallExecuteTask ''a''))) = 2
   \<and> executions_of (step busy_system (CallExecuteTask ''a'')) ''a'' = 2
   \<and> getTask (snd (executeTask_begin busy_manager ''b'')) ''b''
       = Some ((simple_task ''b'' High)\<lparr> status := Running \<rparr>)
   \<and> map_option status (getTask (manager (step busy_system (CallExecuteTask ''b''))) ''b'') = Some Running
   \<and> runningTasks (manager (step busy_system (CallExecuteTask ''b''))) = [''a'', ''b'']
   \<and> getRunningCount (manager (step busy_system (CallExecuteTask ''b''))) = 2
   \<and> map_get (tasks no_attempt_manager) ''a'' = Some (0, simple_task ''a'' High)
   \<and> maxRetries (config no_attempt_manager) < 0
   \<and> getTask (snd (executeTask_begin no_attempt_manager ''a'')) ''a''
       = Some ((simple_task ''a'' High)\<lparr> status := Failed \<rparr>)"
proof -
  let ?fa = "\<lparr> taskId = ''a'', task_ref = 0, retries = 0, lastError = None \<rparr>"
  have h: "map_get (tasks busy_manager) ''a'' = Some (0, (simple_task ''a'' High)\<lparr> status := Running \<rparr>)"
    and hb: "map_get (tasks busy_manager) ''b'' = Some (1, (simple_task ''b'' High)\<lparr> status := Completed \<rparr>)"
    by (simp_all add: busy_manager_def addTask_def TaskManager_new_def map_get_def
          map_has_def simple_task_def)
  have mr: "0 \<le> maxRetries (config busy_manager)"
    and c: "int (length (runningTasks busy_manager)) = maxConcurrent (config busy_manager)"
    and c1: "maxConcurrent (config busy_manager) = 1"
    and nb: "''b'' \<notin> set (runningTasks busy_manager)"
    by (simp_all add: busy_manager_def addTask_def TaskManager_new_def or_default_def)
  have l: "int (length (inflight busy_system)) = maxConcurrent (config busy_manager)"
    by (simp add: busy_system_def c1)
  have e1: "executions_of busy_system ''a'' = 1"
    by (simp add: busy_system_def executions_of_def)
  have hn: "map_get (tasks no_attempt_manager) ''a'' = Some (0, simple_task ''a'' High)"
    by (simp add: no_attempt_manager_def addTask_def TaskManager_new_def map_get_def
          map_has_def simple_task_def)
  have neg: "maxRetries (config no_attempt_manager) < 0"
    by (simp add: no_attempt_manager_def addTask_def TaskManager_new_def or_default_def)
  note th = C10_executeTask_unguarded[OF h, of "[?fa]" 0]
  note thb = C10_executeTask_unguarded[OF hb, of "[?fa]" 0]
  note thn = C10_executeTask_unguarded[OF hn, of "[]" 0]
  from th mr c have n: "executeNext_begin busy_manager 0 = (Returned None, busy_manager)" by blast
  from th mr have "step busy_system (CallExecuteTask ''a'') =
           \<lparr> manager = snd (executeTask_begin busy_manager ''a''), inflight = [?fa] @ [?fa] \<rparr>"
    unfolding busy_system_def by blast
  then have i: "inflight (step busy_system (CallExecuteTask ''a'')) = [?fa, ?fa]"
    by simp
  have l': "int (length [?fa]) = maxConcurrent (config busy_manager)"
    by (simp add: c1)
  from th mr l' have "int (length (inflight (step busy_system (CallExecuteTask ''a''))))
        = maxConcurrent (config busy_manager) + 1"
    unfolding busy_system_def by blast
  then have i2: "length (inflight (step busy_system (CallExecuteTask ''a''))) = 2"
    by (simp add: c1)
  from th mr have "executions_of (step busy_system (CallExecuteTask ''a'')) ''a''
              = Suc (executions_of busy_system ''a'')"
    unfolding busy_system_def by blast
  then have e2: "executions_of (step busy_system (CallExecuteTask ''a'')) ''a'' = 2"
    by (simp add: e1)
  from thb mr have g: "getTask (snd (executeTask_begin busy_manager ''b'')) ''b''
       = Some ((simple_task ''b'' High)\<lparr> status := Completed, status := Running \<rparr>)"
    by blast
  then have g1: "getTask (snd (executeTask_begin busy_manager ''b'')) ''b''
       = Some ((simple_task ''b'' High)\<lparr> status := Running \<rparr>)"
    by simp
  from thb mr have sb: "step busy_system (CallExecuteTask ''b'') =
           \<lparr> manager = snd (executeTask_begin busy_manager ''b''), inflight = [?fa] @ [\<lparr> taskId = ''b'', task_ref = 1, retries = 0, lastError = None \<rparr>] \<rparr>"
    unfolding busy_system_def by blast
  have g2: "map_option status (getTask (manager (step busy_system (CallExecuteTask ''b''))) ''b'') = Some Running"
    unfolding sb by (simp add: g1)
  from thb mr have "executeTask_begin busy_manager ''b'' =
              (Awaiting \<lparr> taskId = ''b'', task_ref = 1, retries = 0, lastError = None \<rparr>,
               busy_manager\<lparr> tasks := obj_write 1 (\<lambda>task. task\<lparr> status := Running \<rparr>) (tasks busy_manager),
                  runningTasks := set_add ''b'' (runningTasks busy_manager) \<rparr>)"
    by blast
  then have rt: "runningTasks (manager (step busy_system (CallExecuteTask ''b''))) = [''a'', ''b'']"
    unfolding sb by (simp add: set_add_def busy_manager_def addTask_def TaskManager_new_def)
  from thb mr c nb have "int (getRunningCount (manager (step busy_system (CallExecuteTask ''b''))))
        = maxConcurrent (config busy_manager) + 1"
    unfolding busy_system_def by blast
  then have gc: "getRunningCount (manager (step busy_system (CallExecuteTask ''b''))) = 2"
    by (simp add: c1)
  from thn neg have f: "getTask (snd (executeTask_begin no_attempt_manager ''a'')) ''a''
       = Some ((simple_task ''a'' High)\<lparr> status := Failed \<rparr>)"
    by blast
  from h hb mr c l c1 nb n i i2 e2 g1 g2 rt gc hn neg f show ?thesis by blast
qed

text \<open>
  The claim C10 as stated fails for a manager constructed with \<^verbatim>\<open>maxRetries: -1\<close> (the
  constructor keeps it: \<^verbatim>\<open>-1 || 2\<close> is \<^verbatim>\<open>-1\<close>). The condition \<^verbatim>\<open>retries <= maxRetries\<close> is
  false at the first test, so \<^verbatim>\<open>executeTask\<close> of the stored pending task \<open>a\<close> does not invoke
  the action: whatever the action would do, the call returns the failure result with no error,
  nothing is in flight, and the task is failed.
\<close>

theorem C10_negative_maxRetries_counterexample:
  "map_get (tasks no_attempt_manager) ''a'' = Some (0, simple_task ''a'' High)
   \<and> maxRetries (config no_attempt_manager) = - 1
   \<and> executeTask_begin no_attempt_manager ''a''
       = (Returned (Some \<lparr> success = False, output_text = None, error = None, metrics = None \<rparr>),
          no_attempt_manager\<lparr> tasks := [(''a'', (0, (simple_task ''a'' High)\<lparr> status := Failed \<rparr>))] \<rparr>)
   \<and> executeTask (every_attempt (Resolves ok_result) 1000) no_attempt_manager ''a''
       = (Some \<lparr> success = False, output_text = None, error = None, metrics = None \<rparr>,
          no_attempt_manager\<lparr> tasks := [(''a'', (0, (simple_task ''a'' High)\<lparr> status := Failed \<rparr>))] \<rparr>)
   \<and> inflight (step \<lparr> manager = no_attempt_manager, inflight = [] \<rparr> (CallExecuteTask ''a'')) = []
   \<and> getTask (manager (step \<lparr> manager = no_attempt_manager, inflight = [] \<rparr> (CallExecuteTask ''a''))) ''a''
       = Some ((simple_task ''a'' High)\<lparr> status := Failed \<rparr>)"
proof -
  have h: "map_get (tasks no_attempt_manager) ''a'' = Some (0, simple_task ''a'' High)"
    by (simp add: no_attempt_manager_def addTask_def TaskManager_new_def map_get_def
          map_has_def simple_task_def)
  have mr: "maxRetries (config no_attempt_manager) = - 1"
    by (simp add: no_attempt_manager_def addTask_def TaskManager_new_def or_default_def)
  have b: "executeTask_begin no_attempt_manager ''a''
       = (Returned (Some \<lparr> success = False, output_text = None, error = None, metrics = None \<rparr>),
          no_attempt_manager\<lparr> tasks := [(''a'', (0, (simple_task ''a'' High)\<lparr> status := Failed \<rparr>))] \<rparr>)"
    by (simp add: executeTask_begin_def while_head_def h mr)
       (simp add: no_attempt_manager_def addTask_def TaskManager_new_def map_has_def
          obj_write_def set_add_def set_delete_def simple_task_def)
  have r: "executeTask (every_attempt (Resolves ok_result) 1000) no_attempt_manager ''a''
       = (Some \<lparr> success = False, output_text = None, error = None, metrics = None \<rparr>,
          no_attempt_manager\<lparr> tasks := [(''a'', (0, (simple_task ''a'' High)\<lparr> status := Failed \<rparr>))] \<rparr>)"
    by (simp add: executeTask_def b)
  have i: "inflight (step \<lparr> manager = no_attempt_manager, inflight = [] \<rparr> (CallExecuteTask ''a'')) = []"
    by (simp add: b spawn_def)
  have g: "getTask (manager (step \<lparr> manager = no_attempt_manager, inflight = [] \<rparr> (CallExecuteTask ''a''))) ''a''
       = Some ((simple_task ''a'' High)\<lparr> status := Failed \<rparr>)"
    by (simp add: b spawn_def getTask_def map_get_def)
  from h mr b r i g show ?thesis by blast
qed

subsection \<open>Overlapping executions: one execution per task id\<close>

lemma store_ok_iff:
  "store_ok m \<longleftrightarrow>
     (distinct (map fst (tasks m)) \<and> distinct (map ref_of (tasks m))
      \<and> (\<forall>k r task. (k, (r, task)) \<in> set (tasks m) \<longrightarrow> task_id task = k \<and> r < next_ref m))"
  unfolding store_ok_def list_all_iff by (intro conj_cong refl) fastforce

lemma frame_ok_iff:
  "frame_ok m fr \<longleftrightarrow>
     (task_ref fr < next_ref m
      \<and> (\<forall>k r task. (k, (r, task)) \<in> set (tasks m)
            \<longrightarrow> (k = taskId fr \<longrightarrow> status task = Running) \<and> (r = task_ref fr \<longrightarrow> k = taskId fr)))"
  unfolding frame_ok_def list_all_iff by (intro conj_cong refl) fastforce

lemma frame_ok_running:
  "frame_ok m fr \<Longrightarrow> (taskId fr, (r, task)) \<in> set (tasks m) \<Longrightarrow> status task = Running"
  by (simp add: frame_ok_iff)

lemma frame_ok_key:
  "frame_ok m fr \<Longrightarrow> (k, (task_ref fr, task)) \<in> set (tasks m) \<Longrightarrow> k = taskId fr"
  by (simp add: frame_ok_iff)

lemma store_ok_obj_write:
  assumes "store_ok m" and "\<forall>t. task_id (f t) = task_id t"
  shows "store_ok (m\<lparr> tasks := obj_write r f (tasks m), runningTasks := rs \<rparr>)"
  using assms
  by (simp add: store_ok_iff map_fst_obj_write map_ref_obj_write in_set_obj_write) metis

lemma same_ref_same_entry:
  assumes "distinct (map ref_of m)" and "(k, (r, t)) \<in> set m" and "(k', (r, t')) \<in> set m"
  shows "k' = k \<and> t' = t"
proof -
  from assms(1) have "inj_on ref_of (set m)" by (simp add: distinct_map)
  moreover have "ref_of (k, (r, t)) = ref_of (k', (r, t'))" by (simp add: ref_of_def)
  ultimately have "(k, (r, t)) = (k', (r, t'))" using assms(2,3) by (rule inj_onD)
  then show ?thesis by simp
qed

lemma store_ok_lookup:
  assumes "store_ok m" and "task \<in> set (all_tasks m)"
  shows "\<exists>r. map_get (tasks m) (task_id task) = Some (r, task) \<and> (task_id task, (r, task)) \<in> set (tasks m)"
proof -
  from assms(2) have "task \<in> (\<lambda>kv. snd (snd kv)) ` set (tasks m)"
    by (simp add: all_tasks_def map_values_def image_image)
  then obtain kv where kv: "kv \<in> set (tasks m)" and t: "task = snd (snd kv)" by (rule imageE)
  obtain k r where kvd: "kv = (k, (r, task))" using t by (cases kv) auto
  from assms(1) kv kvd have k: "task_id task = k" by (simp add: store_ok_iff)
  from assms(1) have "distinct (map fst (tasks m))" by (simp add: store_ok_iff)
  with kv kvd k have "map_of (tasks m) (task_id task) = Some (r, task)" by simp
  with kv kvd k show ?thesis by (auto simp: map_get_def)
qed

text \<open>A write through the reference of another task's object does not concern an execution.\<close>

lemma frame_ok_obj_write_other:
  assumes "frame_ok m fr"
    and "\<forall>k task. (k, (r, task)) \<in> set (tasks m) \<longrightarrow> k \<noteq> taskId fr"
  shows "frame_ok (m\<lparr> tasks := obj_write r f (tasks m), runningTasks := rs \<rparr>) fr"
  using assms by (simp add: frame_ok_iff in_set_obj_write) metis

text \<open>The execution that starts: its task is stored under its id and has just been marked running.\<close>

lemma frame_ok_started:
  assumes ok: "store_ok m" and e: "(k, (r, t)) \<in> set (tasks m)"
    and fr: "taskId fr = k" "task_ref fr = r"
  shows "frame_ok (m\<lparr> tasks := obj_write r (\<lambda>task. task\<lparr> status := Running \<rparr>) (tasks m), runningTasks := rs \<rparr>) fr"
proof -
  from ok have dk: "distinct (map fst (tasks m))" and dr: "distinct (map ref_of (tasks m))"
    by (simp_all add: store_ok_iff)
  from ok e have lt: "r < next_ref m" by (simp add: store_ok_iff)
  have "status task = Running \<and> k' = k" if a: "(k', (i, task)) \<in> set (obj_write r (\<lambda>task. task\<lparr> status := Running \<rparr>) (tasks m))"
    and b: "k' = k \<or> i = r" for k' i task
  proof -
    from a obtain t0 where t0: "(k', (i, t0)) \<in> set (tasks m)"
      and task: "task = (if i = r then t0\<lparr> status := Running \<rparr> else t0)"
      unfolding in_set_obj_write by blast
    from b have "k' = k \<and> i = r"
    proof
      assume "k' = k"
      with t0 e dk have "(i, t0) = (r, t)" by (metis eq_key_imp_eq_value)
      with \<open>k' = k\<close> show ?thesis by simp
    next
      assume "i = r"
      with t0 e dr have "k' = k" using same_ref_same_entry by metis
      with \<open>i = r\<close> show ?thesis by simp
    qed
    with task show ?thesis by simp
  qed
  then show ?thesis
    using lt fr by (simp add: frame_ok_iff)
qed

text \<open>
  Adding a task under another id, removing tasks: the entries that stay are unchanged, a new
  entry has another id and a reference allocated later.
\<close>

lemma frame_ok_mono:
  assumes "frame_ok m fr" and "next_ref m \<le> next_ref m'"
    and "\<forall>k r t. (k, (r, t)) \<in> set (tasks m')
           \<longrightarrow> (k, (r, t)) \<in> set (tasks m) \<or> (k \<noteq> taskId fr \<and> next_ref m \<le> r)"
  shows "frame_ok m' fr"
  unfolding frame_ok_iff
proof (intro conjI allI impI)
  from assms(1,2) show "task_ref fr < next_ref m'" by (simp add: frame_ok_iff)
next
  fix k r task
  assume "(k, (r, task)) \<in> set (tasks m')" and "k = taskId fr"
  with assms(3) have "(k, (r, task)) \<in> set (tasks m)" by blast
  with assms(1) \<open>k = taskId fr\<close> show "status task = Running" unfolding frame_ok_iff by blast
next
  fix k r task
  assume in': "(k, (r, task)) \<in> set (tasks m')" and r: "r = task_ref fr"
  from assms(1) have "task_ref fr < next_ref m" by (simp add: frame_ok_iff)
  with r have "\<not> next_ref m \<le> r" by simp
  with assms(3) in' have "(k, (r, task)) \<in> set (tasks m)" by blast
  with assms(1) r show "k = taskId fr" unfolding frame_ok_iff by blast
qed

lemma frame_ok_addTask:
  assumes "frame_ok m fr" and "task_id task \<noteq> taskId fr"
  shows "frame_ok (addTask task m) fr"
proof (rule frame_ok_mono[OF assms(1)])
  show "next_ref m \<le> next_ref (addTask task m)" by (simp add: addTask_def)
  show "\<forall>k r t. (k, (r, t)) \<in> set (tasks (addTask task m))
           \<longrightarrow> (k, (r, t)) \<in> set (tasks m) \<or> (k \<noteq> taskId fr \<and> next_ref m \<le> r)"
  proof (intro allI impI)
    fix k r t
    assume "(k, (r, t)) \<in> set (tasks (addTask task m))"
    with set_map_set[of "task_id task" "(next_ref m, task)" "tasks m"]
    have "(k, (r, t)) = (task_id task, (next_ref m, task)) \<or> (k, (r, t)) \<in> set (tasks m)"
      by (auto simp: addTask_def)
    with assms(2) show "(k, (r, t)) \<in> set (tasks m) \<or> (k \<noteq> taskId fr \<and> next_ref m \<le> r)"
      by auto
  qed
qed

lemma frame_ok_filter:
  assumes "frame_ok m fr"
  shows "frame_ok (m\<lparr> tasks := filter P (tasks m) \<rparr>) fr"
  by (rule frame_ok_mono[OF assms]) simp_all

lemma remove_nth_distinct:
  assumes "distinct (map f xs)" and "i < length xs"
  shows "distinct (map f (take i xs @ drop (Suc i) xs))"
    and "\<forall>x \<in> set (take i xs @ drop (Suc i) xs). x \<in> set xs \<and> f x \<noteq> f (xs ! i)"
proof -
  have "distinct (map f (take i xs @ xs ! i # drop (Suc i) xs))"
    using assms by (simp only: id_take_nth_drop[symmetric])
  then have d: "distinct (map f (take i xs @ drop (Suc i) xs))"
    and n1: "f (xs ! i) \<notin> f ` set (take i xs)"
    and n2: "f (xs ! i) \<notin> f ` set (drop (Suc i) xs)"
    by simp_all
  show "distinct (map f (take i xs @ drop (Suc i) xs))" by (rule d)
  show "\<forall>x \<in> set (take i xs @ drop (Suc i) xs). x \<in> set xs \<and> f x \<noteq> f (xs ! i)"
  proof
    fix x assume "x \<in> set (take i xs @ drop (Suc i) xs)"
    then consider "x \<in> set (take i xs)" | "x \<in> set (drop (Suc i) xs)" by auto
    then show "x \<in> set xs \<and> f x \<noteq> f (xs ! i)"
    proof cases
      case 1
      then have "f x \<in> f ` set (take i xs)" by (rule imageI)
      with n1 have "f x \<noteq> f (xs ! i)" by metis
      with 1 show ?thesis by (blast dest: in_set_takeD)
    next
      case 2
      then have "f x \<in> f ` set (drop (Suc i) xs)" by (rule imageI)
      with n2 have "f x \<noteq> f (xs ! i)" by metis
      with 2 show ?thesis by (blast dest: in_set_dropD)
    qed
  qed
qed

lemma while_head_cases:
  assumes "while_head m fr = (cs, m')"
  shows "(cs = Awaiting fr \<and> m' = m)
       \<or> (\<exists>r. cs = Returned r
              \<and> m' = m\<lparr> tasks := obj_write (task_ref fr) (\<lambda>task. task\<lparr> status := Failed \<rparr>) (tasks m),
                         runningTasks := set_delete (taskId fr) (runningTasks m) \<rparr>)"
  using assms by (auto simp: while_head_def split: if_splits)

lemma settle_cases:
  assumes "executeTask_settle m fr a now = (cs, m')"
  shows "(\<exists>fr'. cs = Awaiting fr' \<and> m' = m \<and> taskId fr' = taskId fr \<and> task_ref fr' = task_ref fr)
       \<or> (\<exists>r f. cs = Returned r \<and> (\<forall>t. task_id (f t) = task_id t)
              \<and> m' = m\<lparr> tasks := obj_write (task_ref fr) f (tasks m),
                         runningTasks := set_delete (taskId fr) (runningTasks m) \<rparr>)"
proof -
  have failed: "\<forall>t. task_id (t\<lparr> status := Failed \<rparr>) = task_id t" by simp
  have retry: ?thesis if w: "while_head m fr2 = (cs, m')" and t: "taskId fr2 = taskId fr"
    and rf: "task_ref fr2 = task_ref fr" for fr2
    using while_head_cases[OF w]
  proof (elim disjE exE conjE)
    assume "cs = Awaiting fr2" and "m' = m"
    with t rf show ?thesis by blast
  next
    fix r
    assume "cs = Returned r"
      and "m' = m\<lparr> tasks := obj_write (task_ref fr2) (\<lambda>task. task\<lparr> status := Failed \<rparr>) (tasks m),
                     runningTasks := set_delete (taskId fr2) (runningTasks m) \<rparr>"
    with t rf failed show ?thesis
      by (intro disjI2 exI[of _ r] exI[of _ "\<lambda>task. task\<lparr> status := Failed \<rparr>"]) simp
  qed
  show ?thesis
  proof (cases a)
    case (Resolves r)
    have "\<forall>t. task_id (record_result r now t) = task_id t"
      by (simp add: record_result_def Let_def)
    with assms Resolves show ?thesis
      by (intro disjI2 exI[of _ "Some r"] exI[of _ "record_result r now"])
         (auto simp: executeTask_settle_def)
  next
    case (Rejects msg)
    with assms show ?thesis
      by (intro retry[of "fr\<lparr> lastError := Some msg, retries := Suc (retries fr) \<rparr>"])
         (simp_all add: executeTask_settle_def)
  next
    case TimesOut
    with assms show ?thesis
      by (intro retry[of "fr\<lparr> lastError := Some (timeout_message (config m)), retries := Suc (retries fr) \<rparr>"])
         (simp_all add: executeTask_settle_def)
  qed
qed

lemma distinct_count_le_1:
  assumes "distinct (map f xs)"
  shows "length (filter (\<lambda>x. f x = k) xs) \<le> 1"
  using assms
proof (induction xs)
  case Nil
  then show ?case by simp
next
  case (Cons a xs)
  then have IH: "length (filter (\<lambda>x. f x = k) xs) \<le> 1" and na: "f a \<notin> f ` set xs"
    by simp_all
  show ?case
  proof (cases "f a = k")
    case True
    with na have "\<forall>x \<in> set xs. f x \<noteq> k" by (metis imageI)
    then have "filter (\<lambda>x. f x = k) xs = []"
      by (simp add: filter_empty_conv)
    with True show ?thesis by simp
  next
    case False
    with IH show ?thesis by simp
  qed
qed

lemma pending_head_is_pending:
  assumes "getPendingTasks m now = task # rest"
  shows "task \<in> set (all_tasks m)" and "status task = Pending"
proof -
  from assms have "task \<in> set (getPendingTasks m now)" by simp
  then have "task \<in> set (all_tasks m) \<and> pending_filter (tasks m) now task"
    by (simp add: getPendingTasks_def)
  then show "task \<in> set (all_tasks m)" and "status task = Pending"
    by (auto simp: pending_filter_def split: if_splits)
qed

lemma frame_ok_cong:
  "taskId fr' = taskId fr \<Longrightarrow> task_ref fr' = task_ref fr \<Longrightarrow> frame_ok m fr' = frame_ok m fr"
  by (simp add: frame_ok_def)

lemma exec_inv_settle:
  assumes inv: "exec_inv s"
  shows "exec_inv (step s (Settle i a now))"
proof (cases "i < length (inflight s)")
  case False
  with inv show ?thesis by simp
next
  case True
  let ?fr = "inflight s ! i"
  obtain cs m' where st: "executeTask_settle (manager s) ?fr a now = (cs, m')"
    by (cases "executeTask_settle (manager s) ?fr a now")
  from inv have ok: "store_ok (manager s)"
    and dist: "distinct (map taskId (inflight s))"
    and run: "\<forall>fr \<in> set (inflight s). frame_ok (manager s) fr"
    by (simp_all add: exec_inv_def list_all_iff)
  from True have mem: "?fr \<in> set (inflight s)" by simp
  with run have fok: "frame_ok (manager s) ?fr" by blast
  from settle_cases[OF st] show ?thesis
  proof (elim disjE exE conjE)
    fix fr'
    assume cs: "cs = Awaiting fr'" and eqm: "m' = manager s"
      and tid: "taskId fr' = taskId ?fr" and rf: "task_ref fr' = task_ref ?fr"
    have s': "step s (Settle i a now) = s\<lparr> manager := manager s, inflight := (inflight s)[i := fr'] \<rparr>"
      using True st cs eqm by simp
    have mp: "map taskId ((inflight s)[i := fr']) = map taskId (inflight s)"
      using True tid by (simp add: map_update list_update_same_conv)
    have fok': "frame_ok (manager s) fr'"
      using fok frame_ok_cong[OF tid rf] by simp
    have "\<forall>fr \<in> set ((inflight s)[i := fr']). frame_ok (manager s) fr"
    proof
      fix fr assume "fr \<in> set ((inflight s)[i := fr'])"
      with set_update_subset_insert[of "inflight s" i fr']
      have "fr = fr' \<or> fr \<in> set (inflight s)" by auto
      with fok' run show "frame_ok (manager s) fr" by blast
    qed
    with ok dist mp show ?thesis
      unfolding s' by (simp add: exec_inv_def list_all_iff)
  next
    fix r f
    assume cs: "cs = Returned r" and f: "\<forall>t. task_id (f t) = task_id t"
      and m': "m' = (manager s)\<lparr> tasks := obj_write (task_ref ?fr) f (tasks (manager s)),
                         runningTasks := set_delete (taskId ?fr) (runningTasks (manager s)) \<rparr>"
    have s': "step s (Settle i a now) =
                s\<lparr> manager := m', inflight := take i (inflight s) @ drop (Suc i) (inflight s) \<rparr>"
      using True st cs by simp
    note rm = remove_nth_distinct[OF dist True]
    have "\<forall>fr \<in> set (take i (inflight s) @ drop (Suc i) (inflight s)). frame_ok m' fr"
    proof
      fix fr assume "fr \<in> set (take i (inflight s) @ drop (Suc i) (inflight s))"
      with rm(2) have in_s: "fr \<in> set (inflight s)" and ne: "taskId fr \<noteq> taskId ?fr" by blast+
      from in_s run have o: "frame_ok (manager s) fr" by blast
      have "\<forall>k task. (k, (task_ref ?fr, task)) \<in> set (tasks (manager s)) \<longrightarrow> k \<noteq> taskId fr"
        using frame_ok_key[OF fok] ne by metis
      from frame_ok_obj_write_other[OF o this] show "frame_ok m' fr"
        unfolding m' .
    qed
    moreover have "store_ok m'"
      unfolding m' by (rule store_ok_obj_write[OF ok f])
    ultimately show ?thesis
      using rm(1) unfolding s' by (simp add: exec_inv_def list_all_iff)
  qed
qed

lemma exec_inv_executeNext:
  assumes inv: "exec_inv s"
  shows "exec_inv (step s (CallExecuteNext now))"
proof -
  let ?m = "manager s"
  from inv have ok: "store_ok ?m"
    and dist: "distinct (map taskId (inflight s))"
    and run: "\<forall>fr \<in> set (inflight s). frame_ok ?m fr"
    by (simp_all add: exec_inv_def list_all_iff)
  show ?thesis
  proof (cases "int (length (runningTasks ?m)) \<ge> maxConcurrent (config ?m)")
    case True
    then have "step s (CallExecuteNext now) = s"
      by (simp add: executeNext_begin_def spawn_def)
    with inv show ?thesis by simp
  next
    case False
    show ?thesis
    proof (cases "getPendingTasks ?m now")
      case Nil
      with False have "step s (CallExecuteNext now) = s"
        by (simp add: executeNext_begin_def spawn_def)
      with inv show ?thesis by simp
    next
      case (Cons task rest)
      note hd = pending_head_is_pending[OF Cons]
      let ?tid = "task_id task"
      from store_ok_lookup[OF ok hd(1)] obtain r
        where get: "map_get (tasks ?m) ?tid = Some (r, task)"
          and ent: "(?tid, (r, task)) \<in> set (tasks ?m)" by blast
      from ok have dr: "distinct (map ref_of (tasks ?m))" by (simp add: store_ok_iff)
      have fresh: "taskId fr \<noteq> ?tid" if "fr \<in> set (inflight s)" for fr
      proof
        assume e: "taskId fr = ?tid"
        from that run have "frame_ok ?m fr" by blast
        moreover from ent e have "(taskId fr, (r, task)) \<in> set (tasks ?m)" by simp
        ultimately have "status task = Running" by (rule frame_ok_running)
        with hd(2) show False by simp
      qed
      have others: "frame_ok (?m\<lparr> tasks := obj_write r f (tasks ?m), runningTasks := rs \<rparr>) fr"
        if "fr \<in> set (inflight s)" for fr f rs
      proof (rule frame_ok_obj_write_other)
        from that run show "frame_ok ?m fr" by blast
        show "\<forall>k t. (k, (r, t)) \<in> set (tasks ?m) \<longrightarrow> k \<noteq> taskId fr"
        proof (intro allI impI)
          fix k t assume "(k, (r, t)) \<in> set (tasks ?m)"
          from same_ref_same_entry[OF dr ent this] have "k = ?tid" by simp
          with fresh[OF that] show "k \<noteq> taskId fr" by simp
        qed
      qed
      show ?thesis
      proof (cases "0 \<le> maxRetries (config ?m)")
        case True
        let ?m1 = "?m\<lparr> tasks := obj_write r (\<lambda>task. task\<lparr> status := Running \<rparr>) (tasks ?m),
                       runningTasks := set_add ?tid (runningTasks ?m) \<rparr>"
        let ?fr = "\<lparr> taskId = ?tid, task_ref = r, retries = 0, lastError = None \<rparr>"
        have s': "step s (CallExecuteNext now) = s\<lparr> manager := ?m1, inflight := inflight s @ [?fr] \<rparr>"
          using False Cons
          by (simp add: executeNext_begin_def spawn_def executeTask_begin_present[OF get True])
        have new: "frame_ok ?m1 ?fr"
          by (rule frame_ok_started[OF ok ent]) simp_all
        have "\<forall>fr \<in> set (inflight s @ [?fr]). frame_ok ?m1 fr"
        proof
          fix fr assume "fr \<in> set (inflight s @ [?fr])"
          then consider "fr \<in> set (inflight s)" | "fr = ?fr" by auto
          then show "frame_ok ?m1 fr"
          proof cases
            case 1
            then show ?thesis by (rule others)
          next
            case 2
            with new show ?thesis by simp
          qed
        qed
        moreover have "store_ok ?m1"
          by (rule store_ok_obj_write[OF ok]) simp
        moreover have "?tid \<notin> set (map taskId (inflight s))"
        proof
          assume "?tid \<in> set (map taskId (inflight s))"
          then obtain fr where "fr \<in> set (inflight s)" and "taskId fr = ?tid" by auto
          with fresh show False by blast
        qed
        then have "distinct (map taskId (inflight s @ [?fr]))"
          using dist by (simp del: set_map)
        ultimately show ?thesis
          unfolding s' by (simp add: exec_inv_def list_all_iff)
      next
        case neg: False
        let ?m1 = "?m\<lparr> tasks := obj_write r (\<lambda>task. task\<lparr> status := Failed \<rparr>) (tasks ?m),
                       runningTasks := set_delete ?tid (runningTasks ?m) \<rparr>"
        from neg have lt: "maxRetries (config ?m) < 0" by simp
        have s': "step s (CallExecuteNext now) = s\<lparr> manager := ?m1 \<rparr>"
          using False Cons
          by (simp add: executeNext_begin_def spawn_def executeTask_begin_no_attempt[OF get lt])
        have "\<forall>fr \<in> set (inflight s). frame_ok ?m1 fr"
          using others by blast
        moreover have "store_ok ?m1"
          by (rule store_ok_obj_write[OF ok]) simp
        ultimately show ?thesis
          using dist unfolding s' by (simp add: exec_inv_def list_all_iff)
      qed
    qed
  qed
qed

lemma exec_inv_addTask:
  assumes inv: "exec_inv s" and al: "allowed s (CallAddTask task)"
  shows "exec_inv (step s (CallAddTask task))"
proof -
  from inv have ok: "store_ok (manager s)"
    and dist: "distinct (map taskId (inflight s))"
    and run: "\<forall>fr \<in> set (inflight s). frame_ok (manager s) fr"
    by (simp_all add: exec_inv_def list_all_iff)
  have "\<forall>fr \<in> set (inflight s). frame_ok (addTask task (manager s)) fr"
  proof
    fix fr assume m: "fr \<in> set (inflight s)"
    then have "taskId fr \<in> set (map taskId (inflight s))" by simp
    with al have "task_id task \<noteq> taskId fr" by (metis allowed.simps(2))
    with m run show "frame_ok (addTask task (manager s)) fr"
      by (simp add: frame_ok_addTask)
  qed
  with store_ok_addTask[OF ok] dist show ?thesis
    by (simp add: exec_inv_def list_all_iff)
qed

lemma exec_inv_filter:
  assumes inv: "exec_inv s"
  shows "exec_inv (s\<lparr> manager := (manager s)\<lparr> tasks := filter P (tasks (manager s)) \<rparr> \<rparr>)"
  using inv by (simp add: exec_inv_def list_all_iff store_ok_filter frame_ok_filter)

lemma exec_inv_step:
  assumes "exec_inv s" and "allowed s ev"
  shows "exec_inv (step s ev)"
proof (cases ev)
  case (CallExecuteTask tid)
  with assms(2) show ?thesis by simp
next
  case (CallExecuteNext now)
  with assms(1) show ?thesis by (simp only: exec_inv_executeNext)
next
  case (Settle i a now)
  with assms(1) show ?thesis by (simp only: exec_inv_settle)
next
  case (CallAddTask task)
  with assms show ?thesis by (simp only: exec_inv_addTask)
next
  case (CallRemoveTask tid)
  with exec_inv_filter[OF assms(1), of "\<lambda>kv. fst kv \<noteq> tid"] show ?thesis
    by (simp add: removeTask_def map_delete_def)
next
  case CallClearCompleted
  with exec_inv_filter[OF assms(1),
      of "\<lambda>(k, (r, task)). \<not> (status task = Completed \<and> priority task \<noteq> Periodic)"]
  show ?thesis
    by (simp add: clearCompleted_def)
qed

lemma exec_inv_run_events:
  assumes "exec_inv s" and "allowed_run s evs"
  shows "exec_inv (run_events s evs)"
  using assms
proof (induction evs arbitrary: s)
  case Nil
  then show ?case by (simp add: run_events_def)
next
  case (Cons ev evs)
  from Cons.prems(2) have ev: "allowed s ev" and rest: "allowed_run (step s ev) evs"
    by simp_all
  have "exec_inv (step s ev)" by (rule exec_inv_step[OF Cons.prems(1) ev])
  from Cons.IH[OF this rest] show ?case by (simp add: run_events_def)
qed

text \<open>
  C7, as the code has it. Registering an id in the running-set does not keep a task from being
  executed twice at once: \<^verbatim>\<open>executeTask\<close> never looks the id up in the running-set, and a
  call for a stored id puts one more execution of that id in flight, whatever is in flight
  already (when \<^verbatim>\<open>maxRetries\<close> is not negative, so that the action is invoked at all). What
  the code does ensure is this: starting from a store as \<^verbatim>\<open>addTask\<close> builds it (in particular
  from a new manager) with nothing in flight, as long as every execution is started by
  \<^verbatim>\<open>executeNext\<close> and no task is added under an id while an execution of that id is in flight,
  whatever else of the manager's methods is interleaved (attempts settling, \<^verbatim>\<open>addTask\<close>
  under other ids, \<^verbatim>\<open>removeTask\<close>, \<^verbatim>\<open>clearCompleted\<close>; the stored objects are written by
  the manager only), at most one execution of a task id is in flight at any time, and the task stored under the id of an execution in flight, if there is one, has
  status running: \<^verbatim>\<open>executeNext\<close> picks a pending task, and the object an execution holds
  keeps status running until the execution ends.
\<close>

theorem C7_one_execution_per_id_via_executeNext:
  "(store_ok (manager s) \<and> inflight s = [] \<and> allowed_run s evs
      \<longrightarrow> executions_of (run_events s evs) tid \<le> 1)
   \<and> (store_ok (manager s) \<and> inflight s = [] \<and> allowed_run s evs
        \<and> fr \<in> set (inflight (run_events s evs))
        \<and> getTask (manager (run_events s evs)) (taskId fr) = Some t
      \<longrightarrow> status t = Running)
   \<and> (allowed_run \<lparr> manager = TaskManager_new mc ts mr, inflight = [] \<rparr> evs
      \<longrightarrow> executions_of (run_events \<lparr> manager = TaskManager_new mc ts mr, inflight = [] \<rparr> evs) tid \<le> 1)
   \<and> (map_get (tasks (manager s')) tid' = Some (rf, task) \<and> 0 \<le> maxRetries (config (manager s'))
      \<longrightarrow> executions_of (step s' (CallExecuteTask tid')) tid' = Suc (executions_of s' tid'))"
proof -
  have inv: "exec_inv (run_events s0 evs)"
    if "store_ok (manager s0)" and "inflight s0 = []" and "allowed_run s0 evs" for s0
  proof -
    from that(1,2) have "exec_inv s0" by (simp add: exec_inv_def)
    from exec_inv_run_events[OF this that(3)] show ?thesis .
  qed
  have one: "executions_of (run_events s0 evs) tid \<le> 1"
    if "store_ok (manager s0)" and "inflight s0 = []" and "allowed_run s0 evs" for s0
  proof -
    from inv[OF that] have "distinct (map taskId (inflight (run_events s0 evs)))"
      by (simp add: exec_inv_def)
    then show ?thesis unfolding executions_of_def by (rule distinct_count_le_1)
  qed
  show ?thesis
  proof (intro conjI impI)
    assume "store_ok (manager s) \<and> inflight s = [] \<and> allowed_run s evs"
    then show "executions_of (run_events s evs) tid \<le> 1" using one by blast
  next
    assume a: "store_ok (manager s) \<and> inflight s = [] \<and> allowed_run s evs
        \<and> fr \<in> set (inflight (run_events s evs))
        \<and> getTask (manager (run_events s evs)) (taskId fr) = Some t"
    then have "exec_inv (run_events s evs)" by (simp add: inv)
    with a have fok: "frame_ok (manager (run_events s evs)) fr"
      by (simp add: exec_inv_def list_all_iff)
    from a obtain r where "map_of (tasks (manager (run_events s evs))) (taskId fr) = Some (r, t)"
      by (auto simp: getTask_def map_get_def)
    then have "(taskId fr, (r, t)) \<in> set (tasks (manager (run_events s evs)))"
      by (rule map_of_SomeD)
    with fok show "status t = Running" by (rule frame_ok_running)
  next
    assume "allowed_run \<lparr> manager = TaskManager_new mc ts mr, inflight = [] \<rparr> evs"
    then show "executions_of (run_events \<lparr> manager = TaskManager_new mc ts mr, inflight = [] \<rparr> evs) tid \<le> 1"
      by (intro one) (simp_all add: store_ok_new)
  next
    assume "map_get (tasks (manager s')) tid' = Some (rf, task) \<and> 0 \<le> maxRetries (config (manager s'))"
    then have g: "map_get (tasks (manager s')) tid' = Some (rf, task)"
      and nn: "0 \<le> maxRetries (config (manager s'))" by simp_all
    from executeTask_begin_present[OF g nn]
    show "executions_of (step s' (CallExecuteTask tid')) tid' = Suc (executions_of s' tid')"
      by (simp add: spawn_def executions_of_def)
  qed
qed

text \<open>
  An instance, from a new manager: \<open>a\<close> is added and started by \<^verbatim>\<open>executeNext\<close>; a second
  \<^verbatim>\<open>executeNext\<close> finds nothing pending; the first attempt is rejected and retried; \<open>b\<close> is
  added and started. One execution of \<open>a\<close> is in flight, and \<open>a\<close> is read back running. A
  direct \<^verbatim>\<open>executeTask\<close> adds an execution.
\<close>

theorem C7_one_execution_per_id_witness:
  "store_ok (manager single_system) \<and> inflight single_system = []
   \<and> allowed_run single_system
        [CallExecuteNext 0, CallExecuteNext 5, Settle 0 (Rejects ''boom'') 7,
         CallAddTask (simple_task ''b'' High), CallExecuteNext 9]
   \<and> allowed_run \<lparr> manager = TaskManager_new None None None, inflight = [] \<rparr>
        [CallAddTask (simple_task ''a'' High), CallExecuteNext 0]
   \<and> inflight (run_events single_system
        [CallExecuteNext 0, CallExecuteNext 5, Settle 0 (Rejects ''boom'') 7,
         CallAddTask (simple_task ''b'' High), CallExecuteNext 9])
       = [\<lparr> taskId = ''a'', task_ref = 0, retries = 1, lastError = Some ''boom'' \<rparr>,
          \<lparr> taskId = ''b'', task_ref = 1, retries = 0, lastError = None \<rparr>]
   \<and> executions_of (run_events single_system
        [CallExecuteNext 0, CallExecuteNext 5, Settle 0 (Rejects ''boom'') 7,
         CallAddTask (simple_task ''b'' High), CallExecuteNext 9]) ''a'' \<le> 1
   \<and> getTask (manager (run_events single_system
        [CallExecuteNext 0, CallExecuteNext 5, Settle 0 (Rejects ''boom'') 7,
         CallAddTask (simple_task ''b'' High), CallExecuteNext 9])) ''a''
       = Some ((simple_task ''a'' High)\<lparr> status := Running \<rparr>)
   \<and> status ((simple_task ''a'' High)\<lparr> status := Running \<rparr>) = Running
   \<and> executions_of (run_events \<lparr> manager = TaskManager_new None None None, inflight = [] \<rparr>
        [CallAddTask (simple_task ''a'' High), CallExecuteNext 0]) ''a'' \<le> 1
   \<and> map_get (tasks (manager single_system)) ''a'' = Some (0, simple_task ''a'' High)
   \<and> 0 \<le> maxRetries (config (manager single_system))
   \<and> executions_of (step single_system (CallExecuteTask ''a'')) ''a'' = Suc (executions_of single_system ''a'')"
proof -
  let ?evs = "[CallExecuteNext 0, CallExecuteNext 5, Settle 0 (Rejects ''boom'') 7,
         CallAddTask (simple_task ''b'' High), CallExecuteNext 9]"
  let ?start = "[CallAddTask (simple_task ''a'' High), CallExecuteNext 0]"
  let ?fresh = "\<lparr> manager = TaskManager_new None None None, inflight = [] \<rparr>"
  let ?fa = "\<lparr> taskId = ''a'', task_ref = 0, retries = 1, lastError = Some ''boom'' \<rparr>"
  note defs = single_system_def single_manager_def addTask_def TaskManager_new_def
          executeNext_begin_def executeTask_begin_def executeTask_settle_def while_head_def spawn_def
          getPendingTasks_def all_tasks_def pending_filter_def periodic_not_due_def map_values_def
          map_get_def obj_write_def set_add_def or_default_def simple_task_def
  have h1: "store_ok (manager single_system)"
    by (simp add: single_system_def single_manager_def addTask_def TaskManager_new_def store_ok_def
          ref_of_def simple_task_def)
  have h2: "inflight single_system = []" by (simp add: single_system_def)
  have h3: "allowed_run single_system ?evs" by (simp add: defs)
  have h3': "allowed_run ?fresh ?start" by (simp add: defs)
  have h4: "map_get (tasks (manager single_system)) ''a'' = Some (0, simple_task ''a'' High)"
    by (simp add: single_system_def single_manager_def addTask_def TaskManager_new_def map_get_def simple_task_def)
  have h5: "0 \<le> maxRetries (config (manager single_system))"
    by (simp add: single_system_def single_manager_def addTask_def TaskManager_new_def or_default_def)
  have tr: "inflight (run_events single_system ?evs)
       = [?fa, \<lparr> taskId = ''b'', task_ref = 1, retries = 0, lastError = None \<rparr>]"
    by (simp add: run_events_def defs)
  have gt: "getTask (manager (run_events single_system ?evs)) ''a''
       = Some ((simple_task ''a'' High)\<lparr> status := Running \<rparr>)"
    by (simp add: run_events_def getTask_def defs)
  have mem: "?fa \<in> set (inflight (run_events single_system ?evs))"
    by (simp add: tr)
  have gt': "getTask (manager (run_events single_system ?evs)) (taskId ?fa)
       = Some ((simple_task ''a'' High)\<lparr> status := Running \<rparr>)"
    using gt by simp
  note th = C7_one_execution_per_id_via_executeNext[where s = single_system and evs = ?evs and tid = "''a''"
      and s' = single_system and tid' = "''a''" and task = "simple_task ''a'' High" and rf = 0
      and fr = ?fa and t = "(simple_task ''a'' High)\<lparr> status := Running \<rparr>"]
  note th0 = C7_one_execution_per_id_via_executeNext[where evs = ?start and tid = "''a''"
      and mc = None and ts = None and mr = None]
  from th h1 h2 h3 have c1: "executions_of (run_events single_system ?evs) ''a'' \<le> 1" by blast
  from th h1 h2 h3 mem gt' have c2: "status ((simple_task ''a'' High)\<lparr> status := Running \<rparr>) = Running"
    by blast
  from th0 h3' have c3: "executions_of (run_events ?fresh ?start) ''a'' \<le> 1" by blast
  from th h4 h5 have c4: "executions_of (step single_system (CallExecuteTask ''a'')) ''a'' = Suc (executions_of single_system ''a'')"
    by blast
  from h1 h2 h3 h3' tr c1 gt c2 c3 h4 h5 c4 show ?thesis by blast
qed

text \<open>
  The claim C7 as stated fails: after \<^verbatim>\<open>executeTask('a')\<close> the id is in the running-set and
  one execution of \<open>a\<close> is in flight; a second \<^verbatim>\<open>executeTask('a')\<close> before the first
  settles puts a second execution of \<open>a\<close> in flight. Nor does the running-set keep
  \<^verbatim>\<open>executeNext\<close> from doing so: after \<^verbatim>\<open>executeNext\<close> has started \<open>a\<close>, \<^verbatim>\<open>addTask\<close> of a
  pending task with id \<open>a\<close> stores a new object under the id, and the next \<^verbatim>\<open>executeNext\<close>
  starts a second execution of \<open>a\<close> while \<open>a\<close> is in the running-set.
\<close>

theorem C7_second_executeTask_counterexample:
  "''a'' \<in> set (runningTasks (manager (step single_system (CallExecuteTask ''a''))))
   \<and> executions_of (step single_system (CallExecuteTask ''a'')) ''a'' = 1
   \<and> executions_of (step (step single_system (CallExecuteTask ''a'')) (CallExecuteTask ''a'')) ''a'' = 2
   \<and> ''a'' \<in> set (runningTasks (manager (step single_system (CallExecuteNext 0))))
   \<and> inflight (run_events single_system
        [CallExecuteNext 0, CallAddTask (simple_task ''a'' High), CallExecuteNext 1])
       = [\<lparr> taskId = ''a'', task_ref = 0, retries = 0, lastError = None \<rparr>,
          \<lparr> taskId = ''a'', task_ref = 1, retries = 0, lastError = None \<rparr>]
   \<and> executions_of (run_events single_system
        [CallExecuteNext 0, CallAddTask (simple_task ''a'' High), CallExecuteNext 1]) ''a'' = 2"
  by (simp add: run_events_def single_system_def single_manager_def addTask_def TaskManager_new_def
        executeNext_begin_def executeTask_begin_def while_head_def spawn_def executions_of_def
        getPendingTasks_def all_tasks_def pending_filter_def periodic_not_due_def map_values_def
        map_get_def obj_write_def set_add_def or_default_def simple_task_def)

subsection \<open>Idle trigger\<close>

text \<open>
  C8. When the state carries \<^verbatim>\<open>systemIdleSeconds\<close>, \<^verbatim>\<open>shouldTrigger\<close> is true exactly when
  the cooldown has elapsed since the last \<^verbatim>\<open>markTriggered\<close> (or there was none), the idle
  seconds reach the idle threshold, the user-silent seconds, when given, reach their
  threshold, and \<^verbatim>\<open>hasActiveTasks\<close> is false (or absent, which is falsy). With the thresholds 600 and 1800 and 700
  idle seconds: true before any trigger, false 10 seconds after \<^verbatim>\<open>markTriggered\<close>, true again
  from 1800 seconds after it on.
\<close>

theorem C8_shouldTrigger:
  "(systemIdleSeconds state = Some idle \<longrightarrow>
      (shouldTrigger d probe state now \<longleftrightarrow>
         ((lastTriggerTime d = None
            \<or> (\<exists>lt. lastTriggerTime d = Some lt \<and> cooldownSeconds (idle_config d) \<le> of_int (now - lt) / 1000))
          \<and> idle \<ge> idleThresholdSeconds (idle_config d)
          \<and> (\<forall>u. userSilentSeconds state = Some u \<longrightarrow> u \<ge> userSilentThresholdSeconds (idle_config d))
          \<and> hasActiveTasks state \<noteq> Some True)))
   \<and> idleThresholdSeconds (idle_config readme_detector) = 600
   \<and> cooldownSeconds (idle_config readme_detector) = 1800
   \<and> shouldTrigger readme_detector probe idle_700 t0
   \<and> \<not> shouldTrigger (markTriggered readme_detector t0) probe idle_700 (t0 + 10000)
   \<and> (\<forall>dt \<ge> 1800000. shouldTrigger (markTriggered readme_detector t0) probe idle_700 (t0 + dt))"
proof -
  have iff: "systemIdleSeconds state = Some idle \<longrightarrow>
      (shouldTrigger d probe state now \<longleftrightarrow>
         ((lastTriggerTime d = None
            \<or> (\<exists>lt. lastTriggerTime d = Some lt \<and> cooldownSeconds (idle_config d) \<le> of_int (now - lt) / 1000))
          \<and> idle \<ge> idleThresholdSeconds (idle_config d)
          \<and> (\<forall>u. userSilentSeconds state = Some u \<longrightarrow> u \<ge> userSilentThresholdSeconds (idle_config d))
          \<and> hasActiveTasks state \<noteq> Some True))"
    by (auto simp: shouldTrigger_def Let_def split: option.splits)
  have scenario: "idleThresholdSeconds (idle_config readme_detector) = 600
   \<and> cooldownSeconds (idle_config readme_detector) = 1800
   \<and> shouldTrigger readme_detector probe idle_700 t0
   \<and> \<not> shouldTrigger (markTriggered readme_detector t0) probe idle_700 (t0 + 10000)
   \<and> (\<forall>dt \<ge> 1800000. shouldTrigger (markTriggered readme_detector t0) probe idle_700 (t0 + dt))"
    by (simp add: readme_detector_def IdleDetector_new_def or_default_rat_def idle_700_def
          shouldTrigger_def markTriggered_def)
  from iff scenario show ?thesis by blast
qed

text \<open>
  An instance: the detector triggered at time 0 and asked again 2000 seconds later, with 700
  idle seconds, 650 user-silent seconds and no active task.
\<close>

theorem C8_shouldTrigger_witness:
  "systemIdleSeconds (idle_700\<lparr> userSilentSeconds := Some 650 \<rparr>) = Some 700
   \<and> lastTriggerTime (markTriggered readme_detector 0) = Some 0
   \<and> cooldownSeconds (idle_config (markTriggered readme_detector 0)) \<le> of_int (2000000 - 0) / 1000
   \<and> shouldTrigger (markTriggered readme_detector 0) 0 (idle_700\<lparr> userSilentSeconds := Some 650 \<rparr>) 2000000
   \<and> \<not> shouldTrigger (markTriggered readme_detector 0) 0 (idle_700\<lparr> userSilentSeconds := Some 650 \<rparr>) 10000
   \<and> shouldTrigger (markTriggered readme_detector 0) 0 idle_700 1800000"
proof -
  let ?d = "markTriggered readme_detector 0"
  let ?s = "idle_700\<lparr> userSilentSeconds := Some 650 \<rparr>"
  have h: "systemIdleSeconds ?s = Some 700" by (simp add: idle_700_def)
  have l: "lastTriggerTime ?d = Some 0" by (simp add: markTriggered_def)
  have c: "cooldownSeconds (idle_config ?d) = 1800"
    and i: "idleThresholdSeconds (idle_config ?d) = 600"
    and u: "userSilentThresholdSeconds (idle_config ?d) = 600"
    by (simp_all add: markTriggered_def readme_detector_def IdleDetector_new_def or_default_rat_def)
  have a: "userSilentSeconds ?s = Some 650" and b: "hasActiveTasks ?s = Some False"
    by (simp_all add: idle_700_def)
  note th = C8_shouldTrigger[where state = ?s and idle = 700 and d = ?d and probe = 0 and ?t0.0 = 0]
  from th[where now = 2000000] h
  have t1: "shouldTrigger ?d 0 ?s 2000000" by (simp add: l c i u a b)
  from th[where now = 10000] h
  have t2: "\<not> shouldTrigger ?d 0 ?s 10000" by (simp add: l c i u a b)
  from th[where now = 0] have "\<forall>dt \<ge> 1800000. shouldTrigger ?d 0 idle_700 (0 + dt)" by blast
  then have t3: "shouldTrigger ?d 0 idle_700 1800000" by simp
  from h l c t1 t2 t3 show ?thesis by simp
qed

subsection \<open>Decomposer\<close>

text \<open>
  C9. When no registered strategy's \<^verbatim>\<open>matches\<close> accepts the task's description (its name,
  when the description is absent or empty), \<^verbatim>\<open>decompose\<close> returns the one-element list
  holding the task unchanged.
\<close>

theorem C9_no_match_returns_original:
  assumes "\<forall>s \<in> set (strategies d). \<not> matches s (description_or_name task)"
  shows "decompose d task = [task]"
proof -
  have "decompose_loop ss (description_or_name task) task = [task]"
    if "\<forall>s \<in> set ss. \<not> matches s (description_or_name task)" for ss
    using that by (induction ss) simp_all
  with assms show ?thesis by (simp add: decompose_def)
qed

text \<open>
  An instance: a decomposer whose only strategy matches \<open>batch\<close>; the task \<open>n\<close> is returned
  as it is, while a task named \<open>batch\<close> is split.
\<close>

theorem C9_no_match_witness:
  "strategies (registerStrategy batch_strategy \<lparr> strategies = [] \<rparr>) = [batch_strategy]
   \<and> \<not> matches batch_strategy (description_or_name (simple_task ''n'' Low))
   \<and> decompose (registerStrategy batch_strategy \<lparr> strategies = [] \<rparr>) (simple_task ''n'' Low)
       = [simple_task ''n'' Low]
   \<and> length (decompose (registerStrategy batch_strategy \<lparr> strategies = [] \<rparr>) (simple_task ''batch'' Low)) = 2"
proof -
  let ?d = "registerStrategy batch_strategy \<lparr> strategies = [] \<rparr>"
  have s: "strategies ?d = [batch_strategy]" by (simp add: registerStrategy_def)
  have n: "\<not> matches batch_strategy (description_or_name (simple_task ''n'' Low))"
    by (simp add: batch_strategy_def description_or_name_def simple_task_def)
  from s n have h: "\<forall>s \<in> set (strategies ?d). \<not> matches s (description_or_name (simple_task ''n'' Low))"
    by simp
  have two: "length (decompose ?d (simple_task ''batch'' Low)) = 2"
    by (simp add: decompose_def registerStrategy_def batch_strategy_def description_or_name_def
          simple_task_def)
  from C9_no_match_returns_original[OF h] s n two show ?thesis by blast
qed

end
